theory Spec2Isabelle
  imports Main
begin

section \<open>Values and JavaScript sets\<close>

text \<open>
  The values a signal can hold. Objects and promises are references (compared by
  identity); \<open>NaN\<close> is kept apart from the other numbers because \<open>===\<close> treats it
  specially. \<open>Fn\<close> is a function object (the root package's setter accepts one).
\<close>

datatype jsval =
    Undefined
  | Null
  | Bool bool
  | Num int
  | NaN
  | Str string
  | Obj nat
  | Fn nat
  | Unsubscribe nat
  | Promise nat

text \<open>\<open>a === b\<close>: identity on references and primitives, except that \<open>NaN\<close> equals nothing.\<close>

fun strict_eq :: "jsval \<Rightarrow> jsval \<Rightarrow> bool" where
  "strict_eq NaN b = False"
| "strict_eq a NaN = False"
| "strict_eq a b = (a = b)"

text \<open>\<open>v instanceof Promise\<close>\<close>

fun is_promise :: "jsval \<Rightarrow> bool" where
  "is_promise (Promise p) = True"
| "is_promise v = False"

text \<open>\<open>typeof v === "object" && v !== null\<close>\<close>

fun is_object :: "jsval \<Rightarrow> bool" where
  "is_object (Obj r) = True"
| "is_object (Promise p) = True"
| "is_object v = False"

text \<open>\<open>typeof v === "function"\<close>\<close>

fun is_function :: "jsval \<Rightarrow> bool" where
  "is_function (Fn f) = True"
| "is_function (Unsubscribe c) = True"
| "is_function v = False"

text \<open>
  A JavaScript \<open>Set\<close> is its list of entries in insertion order. \<open>delete\<close> leaves an
  empty slot (\<open>None\<close>) behind, \<open>add\<close> appends when the element is absent; this is what
  makes \<open>Set.prototype.forEach\<close> well defined while the callback changes the set.
\<close>

type_synonym 'a jsset = "'a option list"

definition set_has :: "'a jsset \<Rightarrow> 'a \<Rightarrow> bool" where
  "set_has xs x = (Some x \<in> set xs)"

definition set_add :: "'a jsset \<Rightarrow> 'a \<Rightarrow> 'a jsset" where
  "set_add xs x = (if set_has xs x then xs else xs @ [Some x])"

definition set_delete :: "'a jsset \<Rightarrow> 'a \<Rightarrow> 'a jsset" where
  "set_delete xs x = map (\<lambda>e. if e = Some x then None else e) xs"

text \<open>\<open>Array.from(set)\<close>, also the order of a \<open>forEach\<close> whose callback leaves the set alone.\<close>

fun set_values :: "'a jsset \<Rightarrow> 'a list" where
  "set_values [] = []"
| "set_values (None # xs) = set_values xs"
| "set_values (Some x # xs) = x # set_values xs"

section \<open>impact-react/src/signal.ts\<close>

subsection \<open>ObserverContext\<close>

text \<open>
  A \<open>SignalTracker\<close> is owned by one signal or one derived value and lives as long as
  its owner, so a tracker is named by its owner; \<open>getValue\<close> of the tracker reads the
  owner's value.
\<close>

datatype tracker = OfSignal nat | OfDerived nat

datatype ObserverContextType = Component | Derived | Effect

text \<open>
  The three closures this file passes as \<open>_onUpdate\<close>: the one of \<open>derived\<close>
  (\<open>isDirty = true; signal.notify()\<close>), the one of \<open>effect\<close>
  (\<open>currentSubscriptionDisposer(); currentSubscriptionDisposer = updater()\<close>) and
  React's \<open>setState\<close> handed over by \<open>observer\<close>. The number says whose closure it is.
\<close>

datatype on_update = DerivedUpdate nat | EffectUpdate nat | SetState nat

record ObserverContext =
  ctype :: ObserverContextType
  getters :: "tracker jsset"
  setters :: "tracker jsset"
  onUpdate :: on_update
  stack_recorded :: bool

definition registerGetter :: "tracker \<Rightarrow> ObserverContext \<Rightarrow> ObserverContext" where
  "registerGetter signal c =
     (if set_has (setters c) signal then c
      else c\<lparr>getters := set_add (getters c) signal\<rparr>)"

definition registerSetter :: "tracker \<Rightarrow> ObserverContext \<Rightarrow> ObserverContext" where
  "registerSetter signal c =
     (let c1 = (if set_has (getters c) signal
                then c\<lparr>getters := set_delete (getters c) signal\<rparr> else c)
      in c1\<lparr>setters := set_add (setters c1) signal\<rparr>)"

text \<open>A context as the constructor leaves it.\<close>

definition fresh_context :: "ObserverContextType \<Rightarrow> on_update \<Rightarrow> bool \<Rightarrow> ObserverContext" where
  "fresh_context ty upd rec =
     \<lparr>ctype = ty, getters = [], setters = [], onUpdate = upd, stack_recorded = rec\<rparr>"

text \<open>No tracker is both a read and a write dependency of the context.\<close>

definition exclusive :: "ObserverContext \<Rightarrow> bool" where
  "exclusive c = (\<forall>t. \<not> (set_has (getters c) t \<and> set_has (setters c) t))"

subsection \<open>Observable promises\<close>

text \<open>
  A promise object: its native state, the \<open>status\<close> field (with \<open>value\<close> or \<open>reason\<close>)
  that \<open>Object.assign\<close> puts on an observable promise, and the
  \<open>.then(...).catch(...)\<close> chains that \<open>createPromise\<close> hung on it while it was
  unsettled, each named by its signal, its abort controller and the promise the chain
  returns (the pending wrapper the signal stores).
\<close>

datatype settlement = Unsettled | FulfilledWith jsval | RejectedWith jsval

datatype status = Pending | Fulfilled jsval | Rejected jsval

record promise_obj =
  settled :: settlement
  pstatus :: "status option"
  reactions :: "(nat \<times> nat \<times> nat) list"

text \<open>
  \<open>use(promise)\<close> of the promise object at reference \<open>p\<close>: \<open>Inl\<close> is the thrown value.
  A promise without a \<open>status\<close> field is outside the type \<open>ObservablePromise\<close>;
  JavaScript would return its missing \<open>value\<close> property.
\<close>

definition use :: "nat \<Rightarrow> promise_obj \<Rightarrow> jsval + jsval" where
  "use p obj =
     (case pstatus obj of
        Some Pending \<Rightarrow> Inl (Promise p)
      | Some (Rejected reason) \<Rightarrow> Inl reason
      | Some (Fulfilled v) \<Rightarrow> Inr v
      | None \<Rightarrow> Inr Undefined)"

subsection \<open>The module's state\<close>

record SignalTracker =
  contexts :: "nat jsset"

text \<open>
  What user code does with the module: the body of a \<open>derived\<close> or \<open>effect\<close> callback
  as the sequence of its calls into the module, each continuing with the value it got.
\<close>

datatype script =
    Return jsval
  | Throw jsval
  | GetSignal nat "jsval \<Rightarrow> script"
  | SetSignal nat jsval script
  | GetDerived nat "jsval \<Rightarrow> script"
  | Use jsval "jsval \<Rightarrow> script"

text \<open>The variables a call of \<open>signal\<close>, \<open>derived\<close> and \<open>effect\<close> closes over.\<close>

record signal_vars =
  svalue :: jsval
  currentAbortController :: "nat option"

record derived_vars =
  dvalue :: jsval
  disposer :: jsval
  isDirty :: bool
  dcb :: script

record effect_vars =
  currentSubscriptionDisposer :: jsval
  ecb :: script

record hooks =
  onGetValue :: bool
  onSetValue :: bool
  onEffectRun :: bool

text \<open>
  The microtasks the module queues. For the chain \<open>promise.then(F).catch(R)\<close> of
  \<open>createPromise\<close>, made for signal \<open>i\<close> under the abort controller \<open>a\<close> and returning
  the wrapper \<open>w\<close>: \<open>OnFulfilled i a w v\<close> runs \<open>F\<close>, \<open>PassRejection i a w r\<close> carries a
  rejection through \<open>.then\<close> to \<open>.catch\<close>, \<open>OnRejected i a w r\<close> runs \<open>R\<close>;
  \<open>PassFulfilment w x\<close> carries what \<open>F\<close> returned through \<open>.catch\<close> and fulfils the
  wrapper; \<open>AdoptRejected w r\<close> and \<open>RejectWrapper w r\<close> are the two steps by which the
  wrapper takes over the state of the rejected promise that \<open>R\<close> returned. \<open>CheckPending i\<close>
  is the check that the setter defers with \<open>Promise.resolve().then(...)\<close>.
\<close>

datatype job =
    OnFulfilled nat nat nat jsval
  | PassRejection nat nat nat jsval
  | OnRejected nat nat nat jsval
  | PassFulfilment nat jsval
  | AdoptRejected nat jsval
  | RejectWrapper nat jsval
  | CheckPending nat

text \<open>
  The calls that cross the module's boundary, in the order they happen: calls out
  (\<open>console.warn\<close>, the debug hooks, React's \<open>setState\<close>, \<open>cleanup\<close> of the store, a
  \<open>derived\<close> callback, an \<open>effect\<close> callback) and reads of a derived value coming in.
  No branch of the module depends on this list.
\<close>

datatype event =
    Warn jsval
  | OnGetValue nat tracker
  | OnSetValue tracker jsval bool
  | OnEffectRun nat
  | SetStateCall nat nat
  | CleanupCall jsval
  | ReadDerived nat
  | Compute nat
  | RunEffect nat

text \<open>
  Objects the module allocates while it runs (contexts, promises, abort controllers) get
  the next free reference. A signal, derived value or effect is named by the number
  the program binds it to. A disposer closure returned by \<open>subscribe\<close> is named by its
  context.
\<close>

record state =
  version :: nat
  stack :: "nat list"
  ctxs :: "nat \<Rightarrow> ObserverContext"
  next_context :: nat
  trackers :: "tracker \<Rightarrow> SignalTracker"
  signals :: "nat \<Rightarrow> signal_vars"
  deriveds :: "nat \<Rightarrow> derived_vars"
  effects :: "nat \<Rightarrow> effect_vars"
  promises :: "nat \<Rightarrow> promise_obj"
  next_promise :: nat
  aborted :: "nat \<Rightarrow> bool"
  next_controller :: nat
  microtasks :: "job list"
  signalDebugHooks :: hooks
  activeStoreContainer :: bool
  development :: bool
  trace :: "event list"

definition emit :: "event \<Rightarrow> state \<Rightarrow> state" where
  "emit e s = s\<lparr>trace := trace s @ [e]\<rparr>"

text \<open>\<open>ObserverContext.current\<close>\<close>

definition current :: "state \<Rightarrow> nat option" where
  "current s = (if stack s = [] then None else Some (last (stack s)))"

text \<open>\<open>new ObserverContext(type, onUpdate)\<close>\<close>

definition new_ObserverContext :: "ObserverContextType \<Rightarrow> on_update \<Rightarrow> state \<Rightarrow> nat \<times> state" where
  "new_ObserverContext ty upd s =
     (let c = next_context s
      in (c, s\<lparr>ctxs := (ctxs s)(c := fresh_context ty upd (onGetValue (signalDebugHooks s))),
               next_context := Suc c,
               stack := stack s @ [c]\<rparr>))"

definition addContext :: "tracker \<Rightarrow> nat \<Rightarrow> state \<Rightarrow> state" where
  "addContext t c s =
     s\<lparr>trackers := (trackers s)(t := (trackers s t)\<lparr>contexts := set_add (contexts (trackers s t)) c\<rparr>)\<rparr>"

definition removeContext :: "tracker \<Rightarrow> nat \<Rightarrow> state \<Rightarrow> state" where
  "removeContext t c s =
     s\<lparr>trackers := (trackers s)(t := (trackers s t)\<lparr>contexts := set_delete (contexts (trackers s t)) c\<rparr>)\<rparr>"

text \<open>\<open>subscribe()\<close>; the closure it returns is \<open>unsubscribe\<close> of the same context.\<close>

definition subscribe :: "nat \<Rightarrow> state \<Rightarrow> state" where
  "subscribe c s = fold (\<lambda>t. addContext t c) (set_values (getters (ctxs s c))) s"

definition unsubscribe :: "nat \<Rightarrow> state \<Rightarrow> state" where
  "unsubscribe c s = fold (\<lambda>t. removeContext t c) (set_values (getters (ctxs s c))) s"

text \<open>\<open>context[Symbol.dispose]()\<close>: pops whatever is on top, then subscribes.\<close>

definition dispose :: "nat \<Rightarrow> state \<Rightarrow> state" where
  "dispose c s = subscribe c (s\<lparr>stack := butlast (stack s)\<rparr>)"

definition isResolvingContextFromComponent :: "state \<Rightarrow> nat \<Rightarrow> bool" where
  "isResolvingContextFromComponent s c = (ctype (ctxs s c) = Component \<and> activeStoreContainer s)"

text \<open>The block both getters start with: register the read with the current context.\<close>

definition track_get :: "tracker \<Rightarrow> state \<Rightarrow> state" where
  "track_get t s =
     (case current s of
        None \<Rightarrow> s
      | Some c \<Rightarrow>
          if isResolvingContextFromComponent s c then s
          else
            let s1 = s\<lparr>ctxs := (ctxs s)(c := registerGetter t (ctxs s c))\<rparr>
            in if onGetValue (signalDebugHooks s1) then emit (OnGetValue c t) s1 else s1)"

text \<open>\<open>get value()\<close> of a signal\<close>

definition signal_get :: "nat \<Rightarrow> state \<Rightarrow> jsval \<times> state" where
  "signal_get i s = (svalue (signals s i), track_get (OfSignal i) s)"

text \<open>
  \<open>promise.then(F).catch(R)\<close> for the chain of signal \<open>i\<close> and controller \<open>a\<close> that
  returns the promise \<open>w\<close>: on a settled promise the first reaction is queued at once.
\<close>

definition promise_then :: "nat \<Rightarrow> nat \<Rightarrow> nat \<Rightarrow> nat \<Rightarrow> state \<Rightarrow> state" where
  "promise_then i a w p s =
     (case settled (promises s p) of
        Unsettled \<Rightarrow>
          s\<lparr>promises := (promises s)(p := (promises s p)\<lparr>reactions := reactions (promises s p) @ [(i, a, w)]\<rparr>)\<rparr>
      | FulfilledWith v \<Rightarrow> s\<lparr>microtasks := microtasks s @ [OnFulfilled i a w v]\<rparr>
      | RejectedWith r \<Rightarrow> s\<lparr>microtasks := microtasks s @ [PassRejection i a w r]\<rparr>)"

definition new_promise :: "promise_obj \<Rightarrow> state \<Rightarrow> nat \<times> state" where
  "new_promise obj s =
     (let w = next_promise s
      in (w, s\<lparr>promises := (promises s)(w := obj), next_promise := Suc w\<rparr>))"

text \<open>
  \<open>createPromise(promise)\<close> of signal \<open>i\<close>. The promise that the chain returns is the
  object \<open>createPendingPromise\<close> puts \<open>status: "pending"\<close> on; it settles when the
  handlers of the chain have run (see \<open>run_job\<close>), and its \<open>status\<close> field stays as it is.
\<close>

definition createPromise :: "nat \<Rightarrow> nat \<Rightarrow> state \<Rightarrow> jsval \<times> state" where
  "createPromise i p s =
     (let s1 = (case currentAbortController (signals s i) of
                  None \<Rightarrow> s
                | Some a0 \<Rightarrow> s\<lparr>aborted := (aborted s)(a0 := True)\<rparr>);
          a = next_controller s1;
          s2 = s1\<lparr>aborted := (aborted s1)(a := False),
                  next_controller := Suc a,
                  signals := (signals s1)(i := (signals s1 i)\<lparr>currentAbortController := Some a\<rparr>)\<rparr>;
          s3 = promise_then i a (next_promise s2) p s2;
          (w, s4) = new_promise \<lparr>settled = Unsettled, pstatus = Some Pending, reactions = []\<rparr> s3
      in (Promise w, s4))"

definition set_svalue :: "nat \<Rightarrow> jsval \<Rightarrow> state \<Rightarrow> state" where
  "set_svalue i v s = s\<lparr>signals := (signals s)(i := (signals s i)\<lparr>svalue := v\<rparr>)\<rparr>"

text \<open>\<open>value instanceof Promise && value.status === "pending"\<close>\<close>

definition is_pending :: "state \<Rightarrow> jsval \<Rightarrow> bool" where
  "is_pending s v = (case v of Promise p \<Rightarrow> pstatus (promises s p) = Some Pending | _ \<Rightarrow> False)"

text \<open>\<open>use(v)\<close> on whatever value the caller holds.\<close>

definition use_value :: "state \<Rightarrow> jsval \<Rightarrow> jsval + jsval" where
  "use_value s v =
     (case v of
        Promise p \<Rightarrow> use p (promises s p)
      | Undefined \<Rightarrow> Inl (Str ''TypeError'')
      | Null \<Rightarrow> Inl (Str ''TypeError'')
      | _ \<Rightarrow> Inr Undefined)"

text \<open>
  The functions that call each other, and user code, without bound. The first argument
  bounds the depth of calls; \<open>None\<close> means the bound was too small. \<open>Inl\<close> is a thrown
  value.
\<close>


text \<open>
  The block of the setter that is guarded by \<open>signalDebugHooks.onSetValue\<close>: the hook is
  called, and the write is registered with the current context.
\<close>

definition set_hook :: "nat \<Rightarrow> state \<Rightarrow> state" where
  "set_hook i s =
     (if onSetValue (signalDebugHooks s) then
        (let s1 = emit (OnSetValue (OfSignal i) (svalue (signals s i)) False) s
         in case current s1 of
              None \<Rightarrow> s1
            | Some c \<Rightarrow> s1\<lparr>ctxs := (ctxs s1)(c := registerSetter (OfSignal i) (ctxs s1 c))\<rparr>)
      else s)"

type_synonym result = "((jsval + jsval) \<times> state) option"

text \<open>
  Calling a function value. The only function values the module ever calls by itself
  are the closures returned by \<open>subscribe\<close>; calling anything else is a \<open>TypeError\<close>.
\<close>

definition call_disposer :: "jsval \<Rightarrow> state \<Rightarrow> (jsval + jsval) \<times> state" where
  "call_disposer f s =
     (case f of
        Unsubscribe c \<Rightarrow> (Inr Undefined, unsubscribe c s)
      | _ \<Rightarrow> (Inl (Str ''TypeError''), s))"

text \<open>\<open>f?.()\<close>\<close>

definition optional_call :: "jsval \<Rightarrow> state \<Rightarrow> (jsval + jsval) \<times> state" where
  "optional_call f s =
     (case f of
        Undefined \<Rightarrow> (Inr Undefined, s)
      | Null \<Rightarrow> (Inr Undefined, s)
      | _ \<Rightarrow> call_disposer f s)"

text \<open>
  The functions of the module that call each other and user code without bound:
  \<open>SignalTracker.notify\<close> (\<open>TrackerNotify\<close>, with its \<open>forEach\<close> over the array
  \<open>ForEachNotify\<close>), \<open>ObserverContext.notify\<close>, \<open>updater\<close> of an effect, the getter of a
  derived value, the setter of a signal, and user code itself (\<open>Run\<close>). The first
  argument of \<open>exec\<close> bounds the depth of calls; \<open>None\<close> means the bound was too small.
  In a result, \<open>Inl\<close> is a thrown value.
\<close>

datatype call =
    TrackerNotify tracker
  | ForEachNotify "nat list"
  | ContextNotify nat
  | Updater nat
  | DerivedGet nat
  | SignalSet nat jsval
  | Run script

fun exec :: "nat \<Rightarrow> call \<Rightarrow> state \<Rightarrow> result" where
  "exec 0 c s = None"

| "exec (Suc n) (TrackerNotify t) s =
     exec n (ForEachNotify (set_values (contexts (trackers s t)))) s"

| "exec (Suc n) (ForEachNotify []) s = Some (Inr Undefined, s)"
| "exec (Suc n) (ForEachNotify (c # cs)) s =
     (case exec n (ContextNotify c) s of
        None \<Rightarrow> None
      | Some (Inl err, s1) \<Rightarrow> Some (Inl err, s1)
      | Some (Inr u, s1) \<Rightarrow> exec n (ForEachNotify cs) s1)"

| "exec (Suc n) (ContextNotify c) s =
     (let v = version s;
          s1 = s\<lparr>version := Suc v\<rparr>
      in case onUpdate (ctxs s1 c) of
           SetState k \<Rightarrow> Some (Inr Undefined, emit (SetStateCall k v) s1)
         | DerivedUpdate d \<Rightarrow>
             exec n (TrackerNotify (OfDerived d))
               (s1\<lparr>deriveds := (deriveds s1)(d := (deriveds s1 d)\<lparr>isDirty := True\<rparr>)\<rparr>)
         | EffectUpdate e \<Rightarrow>
             (case call_disposer (currentSubscriptionDisposer (effects s1 e)) s1 of
                (Inl err, s2) \<Rightarrow> Some (Inl err, s2)
              | (Inr u, s2) \<Rightarrow>
                  (case exec n (Updater e) s2 of
                     None \<Rightarrow> None
                   | Some (Inl err, s3) \<Rightarrow> Some (Inl err, s3)
                   | Some (Inr f, s3) \<Rightarrow>
                       Some (Inr Undefined,
                             s3\<lparr>effects := (effects s3)(e := (effects s3 e)\<lparr>currentSubscriptionDisposer := f\<rparr>)\<rparr>))))"

| "exec (Suc n) (Updater e) s =
     (let (c, s1) = new_ObserverContext Effect (EffectUpdate e) s
      in case exec n (Run (ecb (effects s1 e))) (emit (RunEffect e) s1) of
           None \<Rightarrow> None
         | Some (Inl err, s2) \<Rightarrow> Some (Inl err, s2)
         | Some (Inr u, s2) \<Rightarrow>
             (let s3 = (if onEffectRun (signalDebugHooks s2) then emit (OnEffectRun e) s2 else s2)
              in Some (Inr (Unsubscribe c), dispose c s3)))"

| "exec (Suc n) (DerivedGet d) s =
     (let s1 = track_get (OfDerived d) (emit (ReadDerived d) s)
      in if isDirty (deriveds s1 d) then
           (case optional_call (disposer (deriveds s1 d)) s1 of
              (Inl err, s2) \<Rightarrow> Some (Inl err, s2)
            | (Inr u, s2) \<Rightarrow>
                (let (c, s3) = new_ObserverContext Derived (DerivedUpdate d) s2
                 in case exec n (Run (dcb (deriveds s3 d))) (emit (Compute d) s3) of
                      None \<Rightarrow> None
                    | Some (Inl err, s4) \<Rightarrow> Some (Inl err, s4)
                    | Some (Inr v, s4) \<Rightarrow>
                        (let s5 = s4\<lparr>deriveds := (deriveds s4)(d := (deriveds s4 d)\<lparr>dvalue := v\<rparr>)\<rparr>;
                             s6 = dispose c s5;
                             s7 = s6\<lparr>deriveds := (deriveds s6)
                                        (d := (deriveds s6 d)\<lparr>disposer := Unsubscribe c, isDirty := False\<rparr>)\<rparr>;
                             s8 = (if onSetValue (signalDebugHooks s7)
                                   then emit (OnSetValue (OfDerived d) (dvalue (deriveds s7 d)) True) s7
                                   else s7)
                         in Some (Inr (dvalue (deriveds s8 d)), s8))))
         else Some (Inr (dvalue (deriveds s1 d)), s1))"

| "exec (Suc n) (SignalSet i newValue) s =
     (if strict_eq (svalue (signals s i)) newValue then
        Some (Inr Undefined,
              if development s \<and> is_object newValue then emit (Warn newValue) s else s)
      else
        (let (newValue1, s1) =
               (case newValue of Promise p \<Rightarrow> createPromise i p s | _ \<Rightarrow> (newValue, s));
             prevValue = svalue (signals s1 i);
             s2 = set_svalue i newValue1 s1;
             s3 = set_hook i s2
         in if strict_eq (svalue (signals s3 i)) prevValue then Some (Inr Undefined, s3)
            else if is_promise (svalue (signals s3 i)) then
              Some (Inr Undefined, s3\<lparr>microtasks := microtasks s3 @ [CheckPending i]\<rparr>)
            else exec n (TrackerNotify (OfSignal i)) s3))"

| "exec (Suc n) (Run (Return v)) s = Some (Inr v, s)"
| "exec (Suc n) (Run (Throw err)) s = Some (Inl err, s)"
| "exec (Suc n) (Run (GetSignal i k)) s =
     (let (v, s1) = signal_get i s in exec n (Run (k v)) s1)"
| "exec (Suc n) (Run (SetSignal i v k)) s =
     (case exec n (SignalSet i v) s of
        None \<Rightarrow> None
      | Some (Inl err, s1) \<Rightarrow> Some (Inl err, s1)
      | Some (Inr u, s1) \<Rightarrow> exec n (Run k) s1)"
| "exec (Suc n) (Run (GetDerived d k)) s =
     (case exec n (DerivedGet d) s of
        None \<Rightarrow> None
      | Some (Inl err, s1) \<Rightarrow> Some (Inl err, s1)
      | Some (Inr v, s1) \<Rightarrow> exec n (Run (k v)) s1)"
| "exec (Suc n) (Run (Use p k)) s =
     (case use_value s p of
        Inl err \<Rightarrow> Some (Inl err, s)
      | Inr v \<Rightarrow> exec n (Run (k v)) s)"

text \<open>The functions under the names the source gives them.\<close>

definition tracker_notify :: "nat \<Rightarrow> tracker \<Rightarrow> state \<Rightarrow> result" where
  "tracker_notify n t s = exec n (TrackerNotify t) s"

definition forEach_notify :: "nat \<Rightarrow> nat list \<Rightarrow> state \<Rightarrow> result" where
  "forEach_notify n cs s = exec n (ForEachNotify cs) s"

definition context_notify :: "nat \<Rightarrow> nat \<Rightarrow> state \<Rightarrow> result" where
  "context_notify n c s = exec n (ContextNotify c) s"

definition updater :: "nat \<Rightarrow> nat \<Rightarrow> state \<Rightarrow> result" where
  "updater n e s = exec n (Updater e) s"

definition derived_get :: "nat \<Rightarrow> nat \<Rightarrow> state \<Rightarrow> result" where
  "derived_get n d s = exec n (DerivedGet d) s"

definition signal_set :: "nat \<Rightarrow> nat \<Rightarrow> jsval \<Rightarrow> state \<Rightarrow> result" where
  "signal_set n i v s = exec n (SignalSet i v) s"

definition run :: "nat \<Rightarrow> script \<Rightarrow> state \<Rightarrow> result" where
  "run n sc s = exec n (Run sc) s"

subsection \<open>Promises settling, and the microtask queue\<close>

definition store_fulfilled :: "nat \<Rightarrow> jsval \<Rightarrow> state \<Rightarrow> state" where
  "store_fulfilled i resolvedValue s =
     (let (w, s1) = new_promise \<lparr>settled = FulfilledWith resolvedValue,
                                 pstatus = Some (Fulfilled resolvedValue), reactions = []\<rparr> s
      in set_svalue i (Promise w) s1)"

definition store_rejected :: "nat \<Rightarrow> jsval \<Rightarrow> state \<Rightarrow> state" where
  "store_rejected i rejectedReason s =
     (let (w, s1) = new_promise \<lparr>settled = RejectedWith rejectedReason,
                                 pstatus = Some (Rejected rejectedReason), reactions = []\<rparr> s
      in set_svalue i (Promise w) s1)"

text \<open>
  A promise settles, by its owner (a promise of the program) or by the chain that returns
  it (a wrapper): the first reaction of every chain hung on it is queued, in the order
  the chains were hung. A settled promise stays as it is.
\<close>

definition resolve_promise :: "nat \<Rightarrow> jsval \<Rightarrow> state \<Rightarrow> state" where
  "resolve_promise p v s =
     (case settled (promises s p) of
        Unsettled \<Rightarrow>
          s\<lparr>promises := (promises s)(p := (promises s p)\<lparr>settled := FulfilledWith v, reactions := []\<rparr>),
            microtasks := microtasks s @ map (\<lambda>(i, a, w). OnFulfilled i a w v) (reactions (promises s p))\<rparr>
      | _ \<Rightarrow> s)"

definition reject_promise :: "nat \<Rightarrow> jsval \<Rightarrow> state \<Rightarrow> state" where
  "reject_promise p r s =
     (case settled (promises s p) of
        Unsettled \<Rightarrow>
          s\<lparr>promises := (promises s)(p := (promises s p)\<lparr>settled := RejectedWith r, reactions := []\<rparr>),
            microtasks := microtasks s @ map (\<lambda>(i, a, w). PassRejection i a w r) (reactions (promises s p))\<rparr>
      | _ \<Rightarrow> s)"

text \<open>
  One microtask. An exception of a handler does not leave the microtask: thrown by \<open>F\<close>
  it rejects the promise \<open>R\<close> hangs on, thrown by \<open>R\<close> it rejects the wrapper. What \<open>F\<close>
  returns (\<open>undefined\<close> under an aborted controller, the resolved value otherwise)
  fulfils the wrapper one microtask later; \<open>undefined\<close> returned by \<open>R\<close> fulfils it at
  once; the rejected promise \<open>R\<close> returns otherwise rejects it two microtasks later.
\<close>

definition run_job :: "nat \<Rightarrow> job \<Rightarrow> state \<Rightarrow> state option" where
  "run_job n j s =
     (case j of
        OnFulfilled i a w resolvedValue \<Rightarrow>
          if aborted s a then Some (s\<lparr>microtasks := microtasks s @ [PassFulfilment w Undefined]\<rparr>)
          else
            (case tracker_notify n (OfSignal i) (store_fulfilled i resolvedValue s) of
               None \<Rightarrow> None
             | Some (Inl err, s1) \<Rightarrow> Some (s1\<lparr>microtasks := microtasks s1 @ [OnRejected i a w err]\<rparr>)
             | Some (Inr u, s1) \<Rightarrow>
                 Some (s1\<lparr>microtasks := microtasks s1 @ [PassFulfilment w resolvedValue]\<rparr>))
      | PassRejection i a w reason \<Rightarrow>
          Some (s\<lparr>microtasks := microtasks s @ [OnRejected i a w reason]\<rparr>)
      | OnRejected i a w rejectedReason \<Rightarrow>
          if aborted s a then Some (resolve_promise w Undefined s)
          else
            (case tracker_notify n (OfSignal i) (store_rejected i rejectedReason s) of
               None \<Rightarrow> None
             | Some (Inl err, s1) \<Rightarrow> Some (reject_promise w err s1)
             | Some (Inr u, s1) \<Rightarrow>
                 Some (s1\<lparr>microtasks := microtasks s1 @ [AdoptRejected w rejectedReason]\<rparr>))
      | PassFulfilment w x \<Rightarrow> Some (resolve_promise w x s)
      | AdoptRejected w reason \<Rightarrow> Some (s\<lparr>microtasks := microtasks s @ [RejectWrapper w reason]\<rparr>)
      | RejectWrapper w reason \<Rightarrow> Some (reject_promise w reason s)
      | CheckPending i \<Rightarrow>
          if is_pending s (svalue (signals s i)) then
            (case tracker_notify n (OfSignal i) s of
               None \<Rightarrow> None
             | Some (r, s1) \<Rightarrow> Some s1)
          else Some s)"

fun run_microtasks :: "nat \<Rightarrow> state \<Rightarrow> state option" where
  "run_microtasks 0 s = None"
| "run_microtasks (Suc n) s =
     (case microtasks s of
        [] \<Rightarrow> Some s
      | j # js \<Rightarrow>
          (case run_job n j (s\<lparr>microtasks := js\<rparr>) of
             None \<Rightarrow> None
           | Some s1 \<Rightarrow> run_microtasks n s1))"

subsection \<open>Constructors\<close>

text \<open>\<open>signal(initialValue)\<close>, bound to the name \<open>i\<close>\<close>

definition signal :: "nat \<Rightarrow> jsval \<Rightarrow> state \<Rightarrow> state" where
  "signal i initialValue s =
     (let s0 = s\<lparr>signals := (signals s)(i := \<lparr>svalue = Undefined, currentAbortController = None\<rparr>),
                  trackers := (trackers s)(OfSignal i := \<lparr>contexts = []\<rparr>)\<rparr>;
          (v, s1) = (case initialValue of Promise p \<Rightarrow> createPromise i p s0 | _ \<Rightarrow> (initialValue, s0))
      in set_svalue i v s1)"

text \<open>\<open>derived(cb)\<close>, bound to the name \<open>d\<close>\<close>

definition derived :: "nat \<Rightarrow> script \<Rightarrow> state \<Rightarrow> state" where
  "derived d cb s =
     s\<lparr>deriveds := (deriveds s)(d := \<lparr>dvalue = Undefined, disposer = Undefined, isDirty = True, dcb = cb\<rparr>),
       trackers := (trackers s)(OfDerived d := \<lparr>contexts = []\<rparr>)\<rparr>"

text \<open>
  \<open>effect(cb)\<close>, bound to the name \<open>e\<close>. \<open>cleanup\<close> belongs to the store module: the call
  is recorded with the disposer it is given.
\<close>

definition effect :: "nat \<Rightarrow> nat \<Rightarrow> script \<Rightarrow> state \<Rightarrow> result" where
  "effect n e cb s =
     (let s0 = s\<lparr>effects := (effects s)(e := \<lparr>currentSubscriptionDisposer = Undefined, ecb = cb\<rparr>)\<rparr>
      in case updater n e s0 of
           None \<Rightarrow> None
         | Some (Inl err, s1) \<Rightarrow> Some (Inl err, s1)
         | Some (Inr f, s1) \<Rightarrow>
             Some (Inr Undefined,
                   emit (CleanupCall f)
                     (s1\<lparr>effects := (effects s1)(e := (effects s1 e)\<lparr>currentSubscriptionDisposer := f\<rparr>)\<rparr>)))"

text \<open>\<open>observer()\<close> of the component \<open>k\<close>, whose \<open>setState\<close> becomes the update callback.\<close>

definition observer :: "nat \<Rightarrow> state \<Rightarrow> nat \<times> state" where
  "observer k s = new_ObserverContext Component (SetState k) s"

text \<open>The module freshly loaded, with no debug hook installed.\<close>

definition init :: state where
  "init =
     \<lparr>version = 0, stack = [],
      ctxs = (\<lambda>c. fresh_context Component (SetState 0) False), next_context = 0,
      trackers = (\<lambda>t. \<lparr>contexts = []\<rparr>),
      signals = (\<lambda>i. \<lparr>svalue = Undefined, currentAbortController = None\<rparr>),
      deriveds = (\<lambda>d. \<lparr>dvalue = Undefined, disposer = Undefined, isDirty = True, dcb = Return Undefined\<rparr>),
      effects = (\<lambda>e. \<lparr>currentSubscriptionDisposer = Undefined, ecb = Return Undefined\<rparr>),
      promises = (\<lambda>p. \<lparr>settled = Unsettled, pstatus = None, reactions = []\<rparr>), next_promise = 0,
      aborted = (\<lambda>a. False), next_controller = 0,
      microtasks = [],
      signalDebugHooks = \<lparr>onGetValue = False, onSetValue = False, onEffectRun = False\<rparr>,
      activeStoreContainer = False, development = False, trace = []\<rparr>"


section \<open>src/Signal.ts of the root package\<close>

text \<open>
  The root package (\<open>impact-app\<close>) has an \<open>ObserverContext\<close>, a \<open>SignalTracker\<close>, a
  \<open>signal\<close> and a \<open>derive\<close> of its own; their model carries the prefix \<open>app\<close>.
\<close>

subsection \<open>The module's state\<close>

text \<open>
  The two closures passed to \<open>subscribe\<close>: the one of \<open>derive\<close>, and the \<open>update\<close>
  callback React's \<open>useSyncExternalStore\<close> hands over for a component.
\<close>

datatype app_update = DeriveUpdate nat | HostUpdate nat

text \<open>
  \<open>_snapshot\<close> is replaced by a copy on every \<open>notify\<close>; all copies share the one
  \<open>signals\<close> array. \<open>snapshot_ref\<close> is the identity of the current copy.
\<close>

record app_ObserverContext =
  ctx_signals :: "tracker jsset"
  ctx_onUpdate :: "app_update option"
  snapshot_ref :: nat
  snapshot_signals :: "jsval list"

datatype app_script =
    AppReturn jsval
  | AppThrow jsval
  | AppGetSignal nat "jsval \<Rightarrow> app_script"
  | AppSetSignal nat jsval app_script
  | AppGetDerive nat "jsval \<Rightarrow> app_script"

record app_signal_vars =
  app_value :: jsval
  app_listeners :: "nat jsset option"

record app_derive_vars =
  der_value :: jsval
  der_disposer :: jsval
  der_isDirty :: bool
  der_listeners :: "nat jsset option"
  der_cb :: app_script

text \<open>
  Calls across the module's boundary: \<open>console.warn\<close>, the two functions of the debugger
  module, the host's update callback, \<open>useSyncExternalStore\<close>, a \<open>derive\<close> callback, and
  reads of a derived value coming in.
\<close>

datatype app_event =
    AppWarn jsval
  | ObserveDebugEntry tracker
  | SetterDebugEntry tracker jsval bool
  | HostUpdateCall nat
  | UseSyncExternalStore nat
  | AppReadDerive nat
  | AppCompute nat

text \<open>
  A listener given to \<open>onChange\<close> is a function of the program, named by a number;
  \<open>listener_body\<close> is what it does with the new and the previous value. \<open>produce\<close> is
  immer's, applied to the current value and a function value.
\<close>

record app_state =
  app_stack :: "nat list"
  app_ctxs :: "nat \<Rightarrow> app_ObserverContext"
  app_next_context :: nat
  app_next_snapshot :: nat
  app_trackers :: "tracker \<Rightarrow> SignalTracker"
  app_signals :: "nat \<Rightarrow> app_signal_vars"
  app_derives :: "nat \<Rightarrow> app_derive_vars"
  listener_body :: "nat \<Rightarrow> jsval \<Rightarrow> jsval \<Rightarrow> app_script"
  produce :: "jsval \<Rightarrow> jsval \<Rightarrow> jsval"
  app_development :: bool
  app_trace :: "app_event list"

definition app_emit :: "app_event \<Rightarrow> app_state \<Rightarrow> app_state" where
  "app_emit e s = s\<lparr>app_trace := app_trace s @ [e]\<rparr>"

definition app_current :: "app_state \<Rightarrow> nat option" where
  "app_current s = (if app_stack s = [] then None else Some (last (app_stack s)))"

text \<open>\<open>signal.getValue()\<close>\<close>

definition app_getValue :: "app_state \<Rightarrow> tracker \<Rightarrow> jsval" where
  "app_getValue s t =
     (case t of
        OfSignal i \<Rightarrow> app_value (app_signals s i)
      | OfDerived d \<Rightarrow> der_value (app_derives s d))"

definition app_new_ObserverContext :: "app_state \<Rightarrow> nat \<times> app_state" where
  "app_new_ObserverContext s =
     (let c = app_next_context s
      in (c, s\<lparr>app_ctxs := (app_ctxs s)
                  (c := \<lparr>ctx_signals = [], ctx_onUpdate = None,
                         snapshot_ref = app_next_snapshot s, snapshot_signals = []\<rparr>),
               app_next_context := Suc c,
               app_next_snapshot := Suc (app_next_snapshot s),
               app_stack := app_stack s @ [c]\<rparr>))"

definition app_registerSignal :: "tracker \<Rightarrow> nat \<Rightarrow> app_state \<Rightarrow> app_state" where
  "app_registerSignal t c s =
     s\<lparr>app_ctxs := (app_ctxs s)
         (c := (app_ctxs s c)\<lparr>ctx_signals := set_add (ctx_signals (app_ctxs s c)) t,
                               snapshot_signals := snapshot_signals (app_ctxs s c) @ [app_getValue s t]\<rparr>)\<rparr>"

definition app_addContext :: "tracker \<Rightarrow> nat \<Rightarrow> app_state \<Rightarrow> app_state" where
  "app_addContext t c s =
     s\<lparr>app_trackers := (app_trackers s)
         (t := (app_trackers s t)\<lparr>contexts := set_add (contexts (app_trackers s t)) c\<rparr>)\<rparr>"

definition app_removeContext :: "tracker \<Rightarrow> nat \<Rightarrow> app_state \<Rightarrow> app_state" where
  "app_removeContext t c s =
     s\<lparr>app_trackers := (app_trackers s)
         (t := (app_trackers s t)\<lparr>contexts := set_delete (contexts (app_trackers s t)) c\<rparr>)\<rparr>"

text \<open>\<open>subscribe(onUpdate)\<close>; the closure it returns is \<open>app_unsubscribe\<close> of the context.\<close>

definition app_subscribe :: "nat \<Rightarrow> app_update \<Rightarrow> app_state \<Rightarrow> app_state" where
  "app_subscribe c upd s =
     (let s1 = s\<lparr>app_ctxs := (app_ctxs s)(c := (app_ctxs s c)\<lparr>ctx_onUpdate := Some upd\<rparr>)\<rparr>
      in fold (\<lambda>t. app_addContext t c) (set_values (ctx_signals (app_ctxs s1 c))) s1)"

definition app_unsubscribe :: "nat \<Rightarrow> app_state \<Rightarrow> app_state" where
  "app_unsubscribe c s =
     fold (\<lambda>t. app_removeContext t c) (set_values (ctx_signals (app_ctxs s c))) s"

text \<open>\<open>context[Symbol.dispose]()\<close>\<close>

definition app_dispose :: "app_state \<Rightarrow> app_state" where
  "app_dispose s = s\<lparr>app_stack := butlast (app_stack s)\<rparr>"

text \<open>The block both getters start with.\<close>

definition app_track_get :: "tracker \<Rightarrow> app_state \<Rightarrow> app_state" where
  "app_track_get t s =
     (case app_current s of
        None \<Rightarrow> s
      | Some c \<Rightarrow>
          (let s1 = app_registerSignal t c s
           in if app_development s1 then app_emit (ObserveDebugEntry t) s1 else s1))"

text \<open>\<open>get value()\<close> of a signal\<close>

definition app_signal_get :: "nat \<Rightarrow> app_state \<Rightarrow> jsval \<times> app_state" where
  "app_signal_get i s = (app_value (app_signals s i), app_track_get (OfSignal i) s)"

definition listeners_of :: "app_state \<Rightarrow> tracker \<Rightarrow> nat jsset option" where
  "listeners_of s t =
     (case t of
        OfSignal i \<Rightarrow> app_listeners (app_signals s i)
      | OfDerived d \<Rightarrow> der_listeners (app_derives s d))"

text \<open>\<open>listeners?.size\<close> as a condition\<close>

definition has_listeners :: "nat jsset option \<Rightarrow> bool" where
  "has_listeners ls = (case ls of None \<Rightarrow> False | Some xs \<Rightarrow> set_values xs \<noteq> [])"

definition app_call_disposer :: "jsval \<Rightarrow> app_state \<Rightarrow> (jsval + jsval) \<times> app_state" where
  "app_call_disposer f s =
     (case f of
        Unsubscribe c \<Rightarrow> (Inr Undefined, app_unsubscribe c s)
      | _ \<Rightarrow> (Inl (Str ''TypeError''), s))"

definition app_optional_call :: "jsval \<Rightarrow> app_state \<Rightarrow> (jsval + jsval) \<times> app_state" where
  "app_optional_call f s =
     (case f of
        Undefined \<Rightarrow> (Inr Undefined, s)
      | Null \<Rightarrow> (Inr Undefined, s)
      | _ \<Rightarrow> app_call_disposer f s)"

text \<open>\<open>this._snapshot = { ...this._snapshot }\<close>\<close>

definition replace_snapshot :: "nat \<Rightarrow> app_state \<Rightarrow> app_state" where
  "replace_snapshot c s =
     s\<lparr>app_ctxs := (app_ctxs s)(c := (app_ctxs s c)\<lparr>snapshot_ref := app_next_snapshot s\<rparr>),
       app_next_snapshot := Suc (app_next_snapshot s)\<rparr>"

text \<open>Assignments to the variables of a signal and of a derived value.\<close>

definition set_app_value :: "nat \<Rightarrow> jsval \<Rightarrow> app_state \<Rightarrow> app_state" where
  "set_app_value i v s = s\<lparr>app_signals := (app_signals s)(i := (app_signals s i)\<lparr>app_value := v\<rparr>)\<rparr>"

definition set_der_isDirty :: "nat \<Rightarrow> bool \<Rightarrow> app_state \<Rightarrow> app_state" where
  "set_der_isDirty d b s = s\<lparr>app_derives := (app_derives s)(d := (app_derives s d)\<lparr>der_isDirty := b\<rparr>)\<rparr>"

definition set_der_value :: "nat \<Rightarrow> jsval \<Rightarrow> app_state \<Rightarrow> app_state" where
  "set_der_value d v s = s\<lparr>app_derives := (app_derives s)(d := (app_derives s d)\<lparr>der_value := v\<rparr>)\<rparr>"

definition set_der_disposer :: "nat \<Rightarrow> jsval \<Rightarrow> app_state \<Rightarrow> app_state" where
  "set_der_disposer d f s = s\<lparr>app_derives := (app_derives s)(d := (app_derives s d)\<lparr>der_disposer := f\<rparr>)\<rparr>"

type_synonym app_result = "((jsval + jsval) \<times> app_state) option"

text \<open>
  The functions that call each other and user code. \<open>Set.prototype.forEach\<close> walks the
  entries of the live set by position, so entries appended while it runs are visited:
  \<open>ContextsForEach t k\<close> is \<open>this.contexts.forEach(context => context.notify())\<close> of
  tracker \<open>t\<close> from position \<open>k\<close> on, \<open>ListenersForEach t k prev\<close> is
  \<open>listeners.forEach(listener => listener(value, prevValue))\<close> of the owner of \<open>t\<close>.
  \<open>Observe cb\<close> is one call of the function \<open>observe(cb)\<close> returns.
\<close>

datatype app_call =
    ContextsForEach tracker nat
  | AppContextNotify nat
  | ListenersForEach tracker nat jsval
  | AppSignalSet nat jsval
  | AppDeriveGet nat
  | AppRun app_script
  | Observe app_script

fun app_exec :: "nat \<Rightarrow> app_call \<Rightarrow> app_state \<Rightarrow> app_result" where
  "app_exec 0 c s = None"

| "app_exec (Suc n) (ContextsForEach t k) s =
     (let entries = contexts (app_trackers s t)
      in if k < length entries then
           (case entries ! k of
              None \<Rightarrow> app_exec n (ContextsForEach t (Suc k)) s
            | Some c \<Rightarrow>
                (case app_exec n (AppContextNotify c) s of
                   None \<Rightarrow> None
                 | Some (Inl err, s1) \<Rightarrow> Some (Inl err, s1)
                 | Some (Inr u, s1) \<Rightarrow> app_exec n (ContextsForEach t (Suc k)) s1))
         else Some (Inr Undefined, s))"

| "app_exec (Suc n) (ListenersForEach t k prevValue) s =
     (case listeners_of s t of
        None \<Rightarrow> Some (Inr Undefined, s)
      | Some entries \<Rightarrow>
          if k < length entries then
            (case entries ! k of
               None \<Rightarrow> app_exec n (ListenersForEach t (Suc k) prevValue) s
             | Some l \<Rightarrow>
                 (case app_exec n (AppRun (listener_body s l (app_getValue s t) prevValue)) s of
                    None \<Rightarrow> None
                  | Some (Inl err, s1) \<Rightarrow> Some (Inl err, s1)
                  | Some (Inr u, s1) \<Rightarrow> app_exec n (ListenersForEach t (Suc k) prevValue) s1))
          else Some (Inr Undefined, s))"

| "app_exec (Suc n) (AppContextNotify c) s =
     (let s1 = replace_snapshot c s
      in case ctx_onUpdate (app_ctxs s1 c) of
           None \<Rightarrow> Some (Inr Undefined, s1)
         | Some (HostUpdate h) \<Rightarrow> Some (Inr Undefined, app_emit (HostUpdateCall h) s1)
         | Some (DeriveUpdate d) \<Rightarrow>
             (let s2 = set_der_isDirty d True s1;
                  prevValue = der_value (app_derives s2 d)
              in case (if has_listeners (der_listeners (app_derives s2 d)) then
                         (case app_exec n (AppRun (der_cb (app_derives s2 d)))
                                 (app_emit (AppCompute d) (set_der_isDirty d False s2)) of
                            None \<Rightarrow> None
                          | Some (Inl err, s3) \<Rightarrow> Some (Inl err, s3)
                          | Some (Inr v, s3) \<Rightarrow> Some (Inr Undefined, set_der_value d v s3))
                       else Some (Inr Undefined, s2)) of
                   None \<Rightarrow> None
                 | Some (Inl err, s3) \<Rightarrow> Some (Inl err, s3)
                 | Some (Inr u, s3) \<Rightarrow>
                     (case app_exec n (ContextsForEach (OfDerived d) 0) s3 of
                        None \<Rightarrow> None
                      | Some (Inl err, s4) \<Rightarrow> Some (Inl err, s4)
                      | Some (Inr u, s4) \<Rightarrow> app_exec n (ListenersForEach (OfDerived d) 0 prevValue) s4)))"

| "app_exec (Suc n) (AppSignalSet i newValue) s =
     (if strict_eq (app_value (app_signals s i)) newValue then
        Some (Inr Undefined,
              if app_development s \<and> is_object newValue then app_emit (AppWarn newValue) s else s)
      else
        (let prevValue = app_value (app_signals s i);
             s1 = set_app_value i
                    (if is_function newValue then produce s (app_value (app_signals s i)) newValue
                     else newValue) s;
             s2 = (if app_development s1
                   then app_emit (SetterDebugEntry (OfSignal i) (app_value (app_signals s1 i)) False) s1
                   else s1)
         in case app_exec n (ContextsForEach (OfSignal i) 0) s2 of
              None \<Rightarrow> None
            | Some (Inl err, s3) \<Rightarrow> Some (Inl err, s3)
            | Some (Inr u, s3) \<Rightarrow> app_exec n (ListenersForEach (OfSignal i) 0 prevValue) s3))"

| "app_exec (Suc n) (AppDeriveGet d) s =
     (let s1 = app_track_get (OfDerived d) (app_emit (AppReadDerive d) s)
      in if der_isDirty (app_derives s1 d) then
           (case app_optional_call (der_disposer (app_derives s1 d)) s1 of
              (Inl err, s2) \<Rightarrow> Some (Inl err, s2)
            | (Inr u, s2) \<Rightarrow>
                (let (c, s3) = app_new_ObserverContext s2
                 in case app_exec n (AppRun (der_cb (app_derives s3 d))) (app_emit (AppCompute d) s3) of
                      None \<Rightarrow> None
                    | Some (Inl err, s4) \<Rightarrow> Some (Inl err, s4)
                    | Some (Inr v, s4) \<Rightarrow>
                        (let s5 = set_der_value d v s4;
                             s6 = app_dispose s5;
                             s7 = set_der_disposer d (Unsubscribe c) (app_subscribe c (DeriveUpdate d) s6);
                             s8 = set_der_isDirty d False s7;
                             s9 = (if app_development s8
                                   then app_emit (SetterDebugEntry (OfDerived d) (der_value (app_derives s8 d)) True) s8
                                   else s8)
                         in Some (Inr (der_value (app_derives s9 d)), s9))))
         else Some (Inr (der_value (app_derives s1 d)), s1))"

| "app_exec (Suc n) (AppRun (AppReturn v)) s = Some (Inr v, s)"
| "app_exec (Suc n) (AppRun (AppThrow err)) s = Some (Inl err, s)"
| "app_exec (Suc n) (AppRun (AppGetSignal i k)) s =
     (let (v, s1) = app_signal_get i s in app_exec n (AppRun (k v)) s1)"
| "app_exec (Suc n) (AppRun (AppSetSignal i v k)) s =
     (case app_exec n (AppSignalSet i v) s of
        None \<Rightarrow> None
      | Some (Inl err, s1) \<Rightarrow> Some (Inl err, s1)
      | Some (Inr u, s1) \<Rightarrow> app_exec n (AppRun k) s1)"
| "app_exec (Suc n) (AppRun (AppGetDerive d k)) s =
     (case app_exec n (AppDeriveGet d) s of
        None \<Rightarrow> None
      | Some (Inl err, s1) \<Rightarrow> Some (Inl err, s1)
      | Some (Inr v, s1) \<Rightarrow> app_exec n (AppRun (k v)) s1)"

| "app_exec (Suc n) (Observe cb) s =
     (let (c, s1) = app_new_ObserverContext s;
          s2 = app_emit (UseSyncExternalStore c) s1
      in case app_exec n (AppRun cb) s2 of
           None \<Rightarrow> None
         | Some (Inl err, s3) \<Rightarrow> Some (Inl err, app_dispose s3)
         | Some (Inr v, s3) \<Rightarrow> Some (Inr v, app_dispose s3))"

definition app_tracker_notify :: "nat \<Rightarrow> tracker \<Rightarrow> app_state \<Rightarrow> app_result" where
  "app_tracker_notify n t s = app_exec n (ContextsForEach t 0) s"

definition app_listeners_forEach :: "nat \<Rightarrow> tracker \<Rightarrow> jsval \<Rightarrow> app_state \<Rightarrow> app_result" where
  "app_listeners_forEach n t prevValue s = app_exec n (ListenersForEach t 0 prevValue) s"

definition app_context_notify :: "nat \<Rightarrow> nat \<Rightarrow> app_state \<Rightarrow> app_result" where
  "app_context_notify n c s = app_exec n (AppContextNotify c) s"

definition app_signal_set :: "nat \<Rightarrow> nat \<Rightarrow> jsval \<Rightarrow> app_state \<Rightarrow> app_result" where
  "app_signal_set n i v s = app_exec n (AppSignalSet i v) s"

definition app_derive_get :: "nat \<Rightarrow> nat \<Rightarrow> app_state \<Rightarrow> app_result" where
  "app_derive_get n d s = app_exec n (AppDeriveGet d) s"

definition app_run :: "nat \<Rightarrow> app_script \<Rightarrow> app_state \<Rightarrow> app_result" where
  "app_run n sc s = app_exec n (AppRun sc) s"

definition observe :: "nat \<Rightarrow> app_script \<Rightarrow> app_state \<Rightarrow> app_result" where
  "observe n cb s = app_exec n (Observe cb) s"

subsection \<open>Constructors and listeners\<close>

definition app_signal :: "nat \<Rightarrow> jsval \<Rightarrow> app_state \<Rightarrow> app_state" where
  "app_signal i v s =
     s\<lparr>app_signals := (app_signals s)(i := \<lparr>app_value = v, app_listeners = None\<rparr>),
       app_trackers := (app_trackers s)(OfSignal i := \<lparr>contexts = []\<rparr>)\<rparr>"

definition derive :: "nat \<Rightarrow> app_script \<Rightarrow> app_state \<Rightarrow> app_state" where
  "derive d cb s =
     s\<lparr>app_derives := (app_derives s)
         (d := \<lparr>der_value = Undefined, der_disposer = Undefined, der_isDirty = True,
                der_listeners = None, der_cb = cb\<rparr>),
       app_trackers := (app_trackers s)(OfDerived d := \<lparr>contexts = []\<rparr>)\<rparr>"

text \<open>\<open>listeners = listeners || new Set(); listeners.add(listener)\<close>\<close>

definition add_listener :: "nat jsset option \<Rightarrow> nat \<Rightarrow> nat jsset option" where
  "add_listener ls l = Some (set_add (case ls of None \<Rightarrow> [] | Some xs \<Rightarrow> xs) l)"

definition signal_onChange :: "nat \<Rightarrow> nat \<Rightarrow> app_state \<Rightarrow> app_state" where
  "signal_onChange i l s =
     s\<lparr>app_signals := (app_signals s)
         (i := (app_signals s i)\<lparr>app_listeners := add_listener (app_listeners (app_signals s i)) l\<rparr>)\<rparr>"

definition derive_onChange :: "nat \<Rightarrow> nat \<Rightarrow> app_state \<Rightarrow> app_state" where
  "derive_onChange d l s =
     s\<lparr>app_derives := (app_derives s)
         (d := (app_derives s d)\<lparr>der_listeners := add_listener (der_listeners (app_derives s d)) l\<rparr>)\<rparr>"

text \<open>The function \<open>onChange\<close> returns: \<open>listeners?.delete(listener)\<close>\<close>

definition delete_listener :: "nat jsset option \<Rightarrow> nat \<Rightarrow> nat jsset option" where
  "delete_listener ls l = (case ls of None \<Rightarrow> None | Some xs \<Rightarrow> Some (set_delete xs l))"

definition signal_offChange :: "nat \<Rightarrow> nat \<Rightarrow> app_state \<Rightarrow> app_state" where
  "signal_offChange i l s =
     s\<lparr>app_signals := (app_signals s)
         (i := (app_signals s i)\<lparr>app_listeners := delete_listener (app_listeners (app_signals s i)) l\<rparr>)\<rparr>"

definition derive_offChange :: "nat \<Rightarrow> nat \<Rightarrow> app_state \<Rightarrow> app_state" where
  "derive_offChange d l s =
     s\<lparr>app_derives := (app_derives s)
         (d := (app_derives s d)\<lparr>der_listeners := delete_listener (der_listeners (app_derives s d)) l\<rparr>)\<rparr>"

text \<open>The module freshly loaded, in a production build, with no listener function.\<close>

definition app_init :: app_state where
  "app_init =
     \<lparr>app_stack = [],
      app_ctxs = (\<lambda>c. \<lparr>ctx_signals = [], ctx_onUpdate = None, snapshot_ref = 0, snapshot_signals = []\<rparr>),
      app_next_context = 0, app_next_snapshot = 0,
      app_trackers = (\<lambda>t. \<lparr>contexts = []\<rparr>),
      app_signals = (\<lambda>i. \<lparr>app_value = Undefined, app_listeners = None\<rparr>),
      app_derives = (\<lambda>d. \<lparr>der_value = Undefined, der_disposer = Undefined, der_isDirty = True,
                          der_listeners = None, der_cb = AppReturn Undefined\<rparr>),
      listener_body = (\<lambda>l v prev. AppReturn Undefined),
      produce = (\<lambda>v f. v),
      app_development = False, app_trace = []\<rparr>"

section \<open>Notions used by the theorems\<close>

text \<open>
  The abort controller \<open>a\<close> has been allocated and aborted: the operation it was
  created for has been superseded.
\<close>

definition superseded :: "state \<Rightarrow> nat \<Rightarrow> bool" where
  "superseded s a = (aborted s a \<and> a < next_controller s)"

text \<open>
  The chain \<open>promise.then(F).catch(R)\<close> made for signal \<open>i\<close> under the abort controller
  \<open>a\<close> is tied to the signal: the controller has been allocated, and it is either
  aborted or the one of the operation the signal currently runs.
\<close>

definition tied :: "state \<Rightarrow> nat \<Rightarrow> nat \<Rightarrow> bool" where
  "tied s i a =
     (a < next_controller s \<and> (aborted s a \<or> currentAbortController (signals s i) = Some a))"



text \<open>The context \<open>c\<close> is a dependent of no tracker.\<close>

definition unsubscribed :: "state \<Rightarrow> nat \<Rightarrow> bool" where
  "unsubscribed s c = (\<forall>t. \<not> set_has (contexts (trackers s t)) c)"

text \<open>Every dependent of a tracker is a context that has been created.\<close>

definition allocated :: "state \<Rightarrow> bool" where
  "allocated s = (\<forall>t c. set_has (contexts (trackers s t)) c \<longrightarrow> c < next_context s)"

text \<open>
  What a call leaves of the contexts: between \<open>s\<close> and \<open>s'\<close> contexts were only created;
  the stack of \<open>s'\<close> is the stack of \<open>s\<close> with contexts created in between on top of it,
  and none at all when the call returned normally (\<open>b\<close>); a context that existed in \<open>s\<close>
  has kept its type, and is still a dependent of no tracker if it was so.
\<close>

definition grown :: "state \<Rightarrow> bool \<Rightarrow> state \<Rightarrow> bool" where
  "grown s b s' =
     (next_context s \<le> next_context s' \<and>
      (\<exists>rest. stack s' = stack s @ rest \<and> (\<forall>x \<in> set rest. next_context s \<le> x) \<and> (b \<longrightarrow> rest = [])) \<and>
      (\<forall>x < next_context s.
         ctype (ctxs s' x) = ctype (ctxs s x) \<and> (unsubscribed s x \<longrightarrow> unsubscribed s' x)) \<and>
      (allocated s \<longrightarrow> allocated s'))"


text \<open>The script never writes signal \<open>i\<close>, whatever its reads return.\<close>

primrec silent :: "nat \<Rightarrow> script \<Rightarrow> bool" where
  "silent i (Return v) = True"
| "silent i (Throw err) = True"
| "silent i (GetSignal j k) = (\<forall>v. silent i (k v))"
| "silent i (SetSignal j v k) = (j \<noteq> i \<and> silent i k)"
| "silent i (GetDerived d k) = (\<forall>v. silent i (k v))"
| "silent i (Use p k) = (\<forall>v. silent i (k v))"

text \<open>No callback of a derived value or of an effect writes signal \<open>i\<close>.\<close>

definition quiet :: "nat \<Rightarrow> state \<Rightarrow> bool" where
  "quiet i s = ((\<forall>d. silent i (dcb (deriveds s d))) \<and> (\<forall>e. silent i (ecb (effects s e))))"

text \<open>The call is not a write to signal \<open>i\<close> and runs no script that writes it.\<close>

fun call_silent :: "nat \<Rightarrow> call \<Rightarrow> bool" where
  "call_silent i (SignalSet j v) = (j \<noteq> i)"
| "call_silent i (Run sc) = silent i sc"
| "call_silent i (TrackerNotify t) = True"
| "call_silent i (ForEachNotify cs) = True"
| "call_silent i (ContextNotify c) = True"
| "call_silent i (Updater e) = True"
| "call_silent i (DerivedGet d) = True"

text \<open>
  Between \<open>s\<close> and \<open>t\<close> the callbacks are the same, and so are the variables of signal \<open>i\<close>.
\<close>

definition same_code :: "nat \<Rightarrow> state \<Rightarrow> state \<Rightarrow> bool" where
  "same_code i s t =
     ((\<forall>d. dcb (deriveds t d) = dcb (deriveds s d)) \<and>
      (\<forall>e. ecb (effects t e) = ecb (effects s e)) \<and>
      signals t i = signals s i)"


text \<open>The same notions for the root package, whose listeners are callbacks too.\<close>

primrec app_silent :: "nat \<Rightarrow> app_script \<Rightarrow> bool" where
  "app_silent i (AppReturn v) = True"
| "app_silent i (AppThrow err) = True"
| "app_silent i (AppGetSignal j k) = (\<forall>v. app_silent i (k v))"
| "app_silent i (AppSetSignal j v k) = (j \<noteq> i \<and> app_silent i k)"
| "app_silent i (AppGetDerive d k) = (\<forall>v. app_silent i (k v))"

definition app_quiet :: "nat \<Rightarrow> app_state \<Rightarrow> bool" where
  "app_quiet i s =
     ((\<forall>d. app_silent i (der_cb (app_derives s d))) \<and>
      (\<forall>l v prev. app_silent i (listener_body s l v prev)))"

fun app_call_silent :: "nat \<Rightarrow> app_call \<Rightarrow> bool" where
  "app_call_silent i (AppSignalSet j v) = (j \<noteq> i)"
| "app_call_silent i (AppRun sc) = app_silent i sc"
| "app_call_silent i (Observe cb) = app_silent i cb"
| "app_call_silent i (ContextsForEach t k) = True"
| "app_call_silent i (ListenersForEach t k prev) = True"
| "app_call_silent i (AppContextNotify c) = True"
| "app_call_silent i (AppDeriveGet d) = True"

definition app_same_code :: "nat \<Rightarrow> app_state \<Rightarrow> app_state \<Rightarrow> bool" where
  "app_same_code i s t =
     ((\<forall>d. der_cb (app_derives t d) = der_cb (app_derives s d)) \<and>
      listener_body t = listener_body s \<and>
      app_signals t i = app_signals s i)"

section \<open>Example programs\<close>

text \<open>A promise as the program creates it: not settled, not observable.\<close>

definition plain_promise :: promise_obj where
  "plain_promise = \<lparr>settled = Unsettled, pstatus = None, reactions = []\<rparr>"

text \<open>
  Two promises of the program, 0 and 1, and the signal 0 created with promise 0 as its
  initial value.
\<close>

definition in_flight :: state where
  "in_flight = signal 0 (Promise 0) (snd (new_promise plain_promise (snd (new_promise plain_promise init))))"

text \<open>
  What a caller sees of a call: its outcome, the version count (one per
  \<open>ObserverContext.notify\<close>), the calls across the boundary and the microtask queue.
\<close>

definition seen :: "result \<Rightarrow> ((jsval + jsval) \<times> nat \<times> event list \<times> job list) option" where
  "seen r = map_option (\<lambda>(v, s). (v, version s, trace s, microtasks s)) r"

text \<open>
  A component that has rendered reading signal 0 (initially 0), so that its context is a
  dependent of the signal; promise 0 of the program is not settled.
\<close>

definition watched :: state where
  "watched =
     (let (c, s1) = observer 0 (signal 0 (Num 0) (snd (new_promise plain_promise init)));
          (v, s2) = signal_get 0 s1
      in dispose c s2)"

text \<open>
  The state in which a read of the dirty derived value \<open>d\<close> calls the callback: the read
  is registered, the previous subscription is dropped, and the new context of the run is
  on top of the stack.
\<close>

definition entered :: "nat \<Rightarrow> state \<Rightarrow> state" where
  "entered d s =
     emit (Compute d)
       (snd (new_ObserverContext Derived (DerivedUpdate d)
          (snd (optional_call (disposer (deriveds s d))
             (track_get (OfDerived d) (emit (ReadDerived d) s))))))"

text \<open>
  The derived value 0 whose callback reads signal 0 and then throws; signal 1 is read
  afterwards.
\<close>

definition throwing :: state where
  "throwing =
     derived 0 (GetSignal 0 (\<lambda>v. Throw (Str ''boom'')))
       (signal 1 (Num 1) (signal 0 (Num 0) init))"

text \<open>Calls of the program one after the other; an exception ends the program.\<close>

definition then_do :: "result \<Rightarrow> (state \<Rightarrow> result) \<Rightarrow> result" where
  "then_do m f = (case m of Some (Inr v, s) \<Rightarrow> f s | r \<Rightarrow> r)"

definition app_then_do :: "app_result \<Rightarrow> (app_state \<Rightarrow> app_result) \<Rightarrow> app_result" where
  "app_then_do m f = (case m of Some (Inr v, s) \<Rightarrow> f s | r \<Rightarrow> r)"

text \<open>
  With the debug hooks \<open>h\<close> installed: signal 0 is created with 0, an effect is created
  that reads signal 0 and writes 1 to it, and then the program writes 2 to signal 0.
\<close>

definition self_writing :: "hooks \<Rightarrow> result" where
  "self_writing h =
     then_do
       (effect 10 0 (GetSignal 0 (\<lambda>v. SetSignal 0 (Num 1) (Return Undefined)))
          (signal 0 (Num 0) (init\<lparr>signalDebugHooks := h\<rparr>)))
       (signal_set 10 0 (Num 2))"

text \<open>
  impact-react: an effect reads signal 0; the program writes 1 to the signal.
\<close>

definition resubscribing :: result where
  "resubscribing =
     then_do
       (effect 10 0 (GetSignal 0 (\<lambda>v. Return Undefined)) (signal 0 (Num 0) init))
       (signal_set 10 0 (Num 1))"

text \<open>
  The root package: the derived values 1 and 2 both return signal 0. The program reads
  2, then 1, gives 1 a listener that reads 2, and writes 1 to the signal.
\<close>

definition relay :: app_result where
  "relay =
     app_then_do
       (app_then_do
          (app_derive_get 10 2
             (derive 2 (AppGetSignal 0 AppReturn)
                (derive 1 (AppGetSignal 0 AppReturn)
                   (app_signal 0 (Num 0)
                      (app_init\<lparr>listener_body :=
                                  (\<lambda>l v prev. AppGetDerive 2 (\<lambda>x. AppReturn Undefined))\<rparr>)))))
          (app_derive_get 10 1))
       (\<lambda>s. app_signal_set 20 0 (Num 1) (derive_onChange 1 0 s))"

text \<open>
  The root package: the derived value 0 doubles signal 0. The program reads it, gives it
  a listener that does nothing, and writes 5 to the signal.
\<close>

definition doubling :: app_script where
  "doubling = AppGetSignal 0 (\<lambda>v. AppReturn (case v of Num k \<Rightarrow> Num (2 * k) | _ \<Rightarrow> NaN))"

definition listened :: app_result where
  "listened =
     app_then_do
       (app_derive_get 10 0 (derive 0 doubling (app_signal 0 (Num 0) app_init)))
       (\<lambda>s. app_signal_set 10 0 (Num 5) (derive_onChange 0 0 s))"

text \<open>The same program without the listener.\<close>

definition unlistened :: app_result where
  "unlistened =
     app_then_do
       (app_derive_get 10 0 (derive 0 doubling (app_signal 0 (Num 0) app_init)))
       (app_signal_set 10 0 (Num 5))"

text \<open>
  In a list of boundary calls, no callback of a derived value runs more often than that
  derived value is read.
\<close>

definition lazy :: "event list \<Rightarrow> bool" where
  "lazy t = (\<forall>d. count_list t (Compute d) \<le> count_list t (ReadDerived d))"

definition app_lazy :: "app_event list \<Rightarrow> bool" where
  "app_lazy t = (\<forall>d. count_list t (AppCompute d) \<le> count_list t (AppReadDerive d))"

text \<open>What the program leaves of the derived value \<open>d\<close> of the root package.\<close>

definition derive_seen :: "nat \<Rightarrow> app_result \<Rightarrow> (app_event list \<times> jsval \<times> bool) option" where
  "derive_seen d r =
     map_option (\<lambda>(v, s). (app_trace s, der_value (app_derives s d), der_isDirty (app_derives s d))) r"

text \<open>No derived value of the root package has a listener.\<close>

definition unobserved :: "app_state \<Rightarrow> bool" where
  "unobserved s = (\<forall>d. \<not> has_listeners (der_listeners (app_derives s d)))"

text \<open>The state a program ends in.\<close>

definition after :: "result \<Rightarrow> state" where
  "after r = (case r of Some (v, s) \<Rightarrow> s | None \<Rightarrow> init)"

definition app_after :: "app_result \<Rightarrow> app_state" where
  "app_after r = (case r of Some (v, s) \<Rightarrow> s | None \<Rightarrow> app_init)"

text \<open>
  impact-react: signal 0 holds 0 and the derived value 0 doubles it. The program reads
  the derived value, writes 5 to the signal, and reads the derived value twice.
\<close>

definition double :: script where
  "double = GetSignal 0 (\<lambda>v. Return (case v of Num k \<Rightarrow> Num (2 * k) | _ \<Rightarrow> NaN))"

definition read_once :: result where
  "read_once = derived_get 10 0 (derived 0 double (signal 0 (Num 0) init))"

definition read_write_read_read :: result where
  "read_write_read_read =
     then_do (then_do (then_do read_once (signal_set 10 0 (Num 5))) (derived_get 10 0)) (derived_get 10 0)"

text \<open>The root package: the derived value 0 has been read once.\<close>

definition app_read_once :: app_result where
  "app_read_once = app_derive_get 10 0 (derive 0 doubling (app_signal 0 (Num 0) app_init))"

text \<open>
  The race of two operations: a component has rendered reading the signal 0 of
  \<open>in_flight\<close>; the signal is assigned promise 1; the deferred check runs; promise 0
  is fulfilled with 7 and the microtasks run; promise 1 is fulfilled with 8 and the
  microtasks run.
\<close>

definition raced :: state where
  "raced = (let (c, s1) = observer 0 in_flight; (v, s2) = signal_get 0 s1 in dispose c s2)"

text \<open>The state in which a run of the microtask queue ends.\<close>

definition drained :: "state option \<Rightarrow> state" where
  "drained r = (case r of Some s \<Rightarrow> s | None \<Rightarrow> init)"

definition race_written :: state where
  "race_written = after (signal_set 1 0 (Promise 1) raced)"

definition race_checked :: state where
  "race_checked = drained (run_microtasks 4 race_written)"

definition race_stale :: state where
  "race_stale = drained (run_microtasks 3 (resolve_promise 0 (Num 7) race_checked))"

definition race_won :: state where
  "race_won = drained (run_microtasks 6 (resolve_promise 1 (Num 8) race_stale))"

text \<open>
  Signal 1 is created with the wrapper that signal 0 of \<open>in_flight\<close> holds; promise 0 is
  then fulfilled with 7 and the microtasks run.
\<close>

definition chained :: state where
  "chained = signal 1 (svalue (signals in_flight 0)) in_flight"

definition chained_settled :: state where
  "chained_settled = drained (run_microtasks 8 (resolve_promise 0 (Num 7) chained))"

text \<open>
  The derived value 1 throws; the derived value 0 reads it. Signal 0 is read after a
  read of the derived value 0.
\<close>

definition nested_leak :: state where
  "nested_leak =
     derived 0 (GetDerived 1 (\<lambda>v. Return v))
       (derived 1 (Throw (Str ''boom'')) (signal 0 (Num 0) init))"

text \<open>
  With the \<open>onSetValue\<close> hook installed, the derived value 0 writes signal 0 and then
  throws; the signal is read after a read of the derived value.
\<close>

definition setter_leak :: state where
  "setter_leak =
     derived 0 (SetSignal 0 (Num 1) (Throw (Str ''boom'')))
       (signal 0 (Num 0)
          (init\<lparr>signalDebugHooks := \<lparr>onGetValue = False, onSetValue = True, onEffectRun = False\<rparr>\<rparr>))"

text \<open>
  What a call leaves behind: its outcome, the context stack, and, for each context on
  the stack, the read set it has after a read of signal \<open>i\<close> that follows the call.
\<close>

definition leaked :: "nat \<Rightarrow> result \<Rightarrow> ((jsval + jsval) \<times> nat list \<times> tracker jsset list) option" where
  "leaked i r =
     map_option (\<lambda>(v, s). (v, stack s, map (\<lambda>c. getters (ctxs (snd (signal_get i s)) c)) (stack s))) r"

text \<open>
  The root package: a component has rendered reading signal 0 (initially 0), and the
  host has subscribed to its context.
\<close>

definition app_watched :: app_state where
  "app_watched =
     (let (c, a1) = app_new_ObserverContext (app_signal 0 (Num 0) app_init);
          (v, a2) = app_signal_get 0 a1
      in app_subscribe c (HostUpdate 0) (app_dispose a2))"

text \<open>What a caller sees of a call of the root package: its outcome and the calls out.\<close>

definition app_seen :: "app_result \<Rightarrow> ((jsval + jsval) \<times> app_event list) option" where
  "app_seen r = map_option (\<lambda>(v, s). (v, app_trace s)) r"


text \<open>
  After the program \<open>resubscribing\<close>, whose signal 0 holds 1 and is read by an effect, 2
  is written to the signal; and 2 is written to the watched signal of the root package.
\<close>

definition written_once :: state where
  "written_once = after (signal_set 10 0 (Num 2) (after resubscribing))"

definition app_written_once :: app_state where
  "app_written_once = app_after (app_signal_set 10 0 (Num 2) app_watched)"

text \<open>Every context of the state keeps its read and its write dependencies apart.\<close>

definition all_exclusive :: "state \<Rightarrow> bool" where
  "all_exclusive s = (\<forall>c. exclusive (ctxs s c))"

section \<open>Facts about JavaScript sets\<close>

lemma set_has_add: "set_has (set_add xs x) y = (y = x \<or> set_has xs y)"
  by (auto simp: set_has_def set_add_def)

lemma set_has_delete: "set_has (set_delete xs x) y = (y \<noteq> x \<and> set_has xs y)"
  by (auto simp: set_has_def set_delete_def)

lemma set_has_empty: "\<not> set_has [] x"
  by (simp add: set_has_def)

lemma set_values_has: "x \<in> set (set_values xs) \<longleftrightarrow> set_has xs x"
  by (induction xs rule: set_values.induct) (auto simp: set_has_def)

section \<open>Read and write registrations exclude each other\<close>

lemma registerSetter_getters:
  "set_has (getters (registerSetter t c)) u = (u \<noteq> t \<and> set_has (getters c) u)"
  by (auto simp: registerSetter_def Let_def set_has_delete)

lemma registerSetter_setters:
  "set_has (setters (registerSetter t c)) u = (u = t \<or> set_has (setters c) u)"
  by (auto simp: registerSetter_def Let_def set_has_add)

lemma registerGetter_setters: "setters (registerGetter t c) = setters c"
  by (simp add: registerGetter_def)

lemma registerGetter_getters:
  "set_has (getters (registerGetter t c)) u =
     (set_has (getters c) u \<or> (u = t \<and> \<not> set_has (setters c) t))"
  by (auto simp: registerGetter_def set_has_add)

lemma exclusive_fresh: "exclusive (fresh_context ty upd rec)"
  by (simp add: exclusive_def fresh_context_def set_has_empty)

lemma exclusive_registerGetter: "exclusive c \<Longrightarrow> exclusive (registerGetter t c)"
  unfolding exclusive_def registerGetter_getters registerGetter_setters by blast

lemma exclusive_registerSetter: "exclusive c \<Longrightarrow> exclusive (registerSetter t c)"
  unfolding exclusive_def registerSetter_getters registerSetter_setters by blast

section \<open>Reading an observable promise\<close>

text \<open>
  C7. \<open>use\<close> returns the value of a fulfilled promise, throws the reason of a rejected
  one, and throws the promise itself while it is pending. Inside user code the thrown
  value ends the computation that called \<open>use\<close>.
\<close>

theorem use_contract:
  "use p (obj\<lparr>pstatus := Some (Fulfilled v)\<rparr>) = Inr v \<and>
   use p (obj\<lparr>pstatus := Some (Rejected reason)\<rparr>) = Inl reason \<and>
   use p (obj\<lparr>pstatus := Some Pending\<rparr>) = Inl (Promise p) \<and>
   run (Suc n) (Use (Promise p) k) (s\<lparr>promises := (promises s)(p := obj\<lparr>pstatus := Some Pending\<rparr>)\<rparr>)
     = Some (Inl (Promise p), s\<lparr>promises := (promises s)(p := obj\<lparr>pstatus := Some Pending\<rparr>)\<rparr>) \<and>
   run (Suc n) (Use (Promise p) k) (s\<lparr>promises := (promises s)(p := obj\<lparr>pstatus := Some (Rejected reason)\<rparr>)\<rparr>)
     = Some (Inl reason, s\<lparr>promises := (promises s)(p := obj\<lparr>pstatus := Some (Rejected reason)\<rparr>)\<rparr>) \<and>
   run (Suc n) (Use (Promise p) k) (s\<lparr>promises := (promises s)(p := obj\<lparr>pstatus := Some (Fulfilled v)\<rparr>)\<rparr>)
     = run n (k v) (s\<lparr>promises := (promises s)(p := obj\<lparr>pstatus := Some (Fulfilled v)\<rparr>)\<rparr>)"
  by (simp add: use_def run_def use_value_def)

lemma strict_eq_sym: "strict_eq a b = strict_eq b a"
  by (cases a; cases b) auto

lemma strict_eq_eq: "strict_eq a b \<Longrightarrow> a = b"
  by (cases a; cases b) auto

section \<open>Reading outside every context\<close>

lemma track_get_no_context: "stack s = [] \<Longrightarrow> track_get t s = s"
  by (simp add: track_get_def current_def)

lemma app_track_get_no_context: "app_stack s = [] \<Longrightarrow> app_track_get t s = s"
  by (simp add: app_track_get_def app_current_def)

lemma track_get_trackers: "trackers (track_get t s) = trackers s"
  by (simp add: track_get_def emit_def Let_def split: option.splits)

lemma app_track_get_trackers: "app_trackers (app_track_get t s) = app_trackers s"
  by (simp add: app_track_get_def app_emit_def app_registerSignal_def Let_def split: option.splits)

text \<open>
  C6. A read of a signal never touches the dependent set of a tracker, and with an empty
  context stack it changes nothing at all: it returns the stored value and the state as
  it was, so a later write to the signal does exactly what it would have done without
  the read. This holds in both packages.
\<close>

theorem read_outside_context:
  "trackers (snd (signal_get i s)) = trackers s \<and>
   app_trackers (snd (app_signal_get j a)) = app_trackers a \<and>
   (stack s = [] \<longrightarrow>
      signal_get i s = (svalue (signals s i), s) \<and>
      signal_set n i v (snd (signal_get i s)) = signal_set n i v s) \<and>
   (app_stack a = [] \<longrightarrow>
      app_signal_get j a = (app_value (app_signals a j), a) \<and>
      app_signal_set n j w (snd (app_signal_get j a)) = app_signal_set n j w a)"
  by (simp add: signal_get_def app_signal_get_def track_get_no_context app_track_get_no_context
      track_get_trackers app_track_get_trackers)

theorem read_outside_context_witness:
  "signal_get 0 (signal 0 (Num 5) init) = (Num 5, signal 0 (Num 5) init) \<and>
   app_signal_get 0 (app_signal 0 (Num 5) app_init) = (Num 5, app_signal 0 (Num 5) app_init)"
proof -
  let ?s = "signal 0 (Num 5) init"
  let ?a = "app_signal 0 (Num 5) app_init"
  have 1: "stack ?s = []" "svalue (signals ?s 0) = Num 5"
    by (simp_all add: signal_def set_svalue_def init_def)
  have 2: "app_stack ?a = []" "app_value (app_signals ?a 0) = Num 5"
    by (simp_all add: app_signal_def app_init_def)
  show ?thesis
    using read_outside_context [of 0 ?s 0 ?a 0 Undefined Undefined] 1 2 by simp
qed

section \<open>Induction over the calls of the module\<close>

text \<open>
  A relation between the state before and the state after that is reflexive and
  transitive and holds across every single step of the module holds across every call
  that returns. The callback of a derived value is only ever entered from a read of
  that derived value, which the premise \<open>do_compute\<close> reflects.
\<close>

lemma exec_rel:
  assumes refl: "\<And>s. R s s"
    and trans: "\<And>s t u. R s t \<Longrightarrow> R t u \<Longrightarrow> R s u"
    and upd_version: "\<And>s x. R s (s\<lparr>version := x\<rparr>)"
    and upd_deriveds: "\<And>s x. R s (s\<lparr>deriveds := x\<rparr>)"
    and upd_effects: "\<And>s x. R s (s\<lparr>effects := x\<rparr>)"
    and upd_microtasks: "\<And>s i. R s (s\<lparr>microtasks := microtasks s @ [CheckPending i]\<rparr>)"
    and do_emit: "\<And>s e. (\<forall>d. e \<noteq> Compute d) \<Longrightarrow> R s (emit e s)"
    and do_compute: "\<And>s s' d. R (emit (ReadDerived d) s) s' \<Longrightarrow> R s (emit (Compute d) s')"
    and do_call: "\<And>s f. R s (snd (call_disposer f s))"
    and do_new: "\<And>s ty u. R s (snd (new_ObserverContext ty u s))"
    and do_dispose: "\<And>s c. R s (dispose c s)"
    and do_track: "\<And>s t. R s (track_get t s)"
    and do_create: "\<And>s i p. R s (snd (createPromise i p s))"
    and do_store: "\<And>s i v. R s (set_svalue i v s)"
    and do_hook: "\<And>s i. R s (set_hook i s)"
  shows "exec n c s = Some (r, s') \<Longrightarrow> R s s'"
proof (induction n arbitrary: c s r s')
  case 0
  then show ?case by simp
next
  case (Suc n)
  note IH = Suc.IH and ex = Suc.prems
  have do_opt: "\<And>s f. R s (snd (optional_call f s))"
    using refl do_call by (simp add: optional_call_def split: jsval.splits)
  show ?case
  proof (cases c)
    case (TrackerNotify t)
    with ex IH show ?thesis by simp
  next
    case (ForEachNotify cs)
    show ?thesis
    proof (cases cs)
      case Nil
      with ex ForEachNotify show ?thesis by (simp add: refl)
    next
      case (Cons c' cs')
      with ex ForEachNotify show ?thesis
        by (auto split: option.splits sum.splits prod.splits dest!: IH) (meson trans)+
    qed
  next
    case (ContextNotify c')
    show ?thesis
    proof (cases "onUpdate (ctxs s c')")
      case (SetState k)
      with ex ContextNotify show ?thesis
        using trans [OF upd_version do_emit] by (auto simp: Let_def)
    next
      case (DerivedUpdate d)
      with ex ContextNotify have "R (s\<lparr>version := Suc (version s),
          deriveds := (deriveds s)(d := (deriveds s d)\<lparr>isDirty := True\<rparr>)\<rparr>) s'"
        by (auto simp: Let_def dest!: IH)
      then show ?thesis
        using trans [OF trans [OF upd_version upd_deriveds]] by blast
    next
      case (EffectUpdate e)
      let ?s1 = "s\<lparr>version := Suc (version s)\<rparr>"
      let ?r2 = "call_disposer (currentSubscriptionDisposer (effects ?s1 e)) ?s1"
      have a: "R s (snd ?r2)" using trans [OF upd_version do_call] .
      show ?thesis
      proof (cases "fst ?r2")
        case (Inl err)
        with ex ContextNotify EffectUpdate a show ?thesis
          by (auto simp: Let_def split_beta split: sum.splits)
      next
        case (Inr u)
        with ex ContextNotify EffectUpdate
        have "\<exists>rr s3. exec n (Updater e) (snd ?r2) = Some (rr, s3) \<and>
                (s' = s3 \<or> (\<exists>x. s' = s3\<lparr>effects := x\<rparr>))"
          by (auto simp: Let_def split: sum.splits option.splits prod.splits)
        then obtain rr s3 where run: "exec n (Updater e) (snd ?r2) = Some (rr, s3)"
          and fin: "s' = s3 \<or> (\<exists>x. s' = s3\<lparr>effects := x\<rparr>)"
          by blast
        have "R (snd ?r2) s3" using IH [OF run] .
        moreover have "R s3 s'" using fin refl upd_effects by blast
        ultimately show ?thesis using a trans by blast
      qed
    qed
  next
    case (Updater e)
    let ?s1 = "snd (new_ObserverContext Effect (EffectUpdate e) s)"
    have a: "R s (emit (RunEffect e) ?s1)" using trans [OF do_new do_emit] by simp
    have b: "\<And>s2 c. R s2 (dispose c (emit (OnEffectRun e) s2))"
      using trans [OF do_emit do_dispose] by simp
    from ex Updater a show ?thesis
      by (auto simp: Let_def split_beta split: sum.splits option.splits prod.splits if_splits dest!: IH)
        (meson trans do_dispose b)+
  next
    case (DerivedGet d)
    let ?s1 = "track_get (OfDerived d) (emit (ReadDerived d) s)"
    have r1: "R (emit (ReadDerived d) s) ?s1" by (rule do_track)
    have a1: "R s ?s1" using trans [OF do_emit do_track] by simp
    show ?thesis
    proof (cases "isDirty (deriveds ?s1 d)")
      case False
      with ex DerivedGet a1 show ?thesis by (auto simp: Let_def)
    next
      case True
      let ?r2 = "optional_call (disposer (deriveds ?s1 d)) ?s1"
      have r2: "R (emit (ReadDerived d) s) (snd ?r2)" using trans [OF r1 do_opt] .
      have a2: "R s (snd ?r2)" using trans [OF a1 do_opt] .
      show ?thesis
      proof (cases "fst ?r2")
        case (Inl err)
        with ex DerivedGet True a2 show ?thesis
          by (auto simp: Let_def split_beta split: sum.splits)
      next
        case (Inr u)
        let ?s3 = "snd (new_ObserverContext Derived (DerivedUpdate d) (snd ?r2))"
        let ?c = "fst (new_ObserverContext Derived (DerivedUpdate d) (snd ?r2))"
        have a3: "R s (emit (Compute d) ?s3)"
          using do_compute [OF trans [OF r2 do_new]] .
        have fin: "\<And>s4 x y z. R s4 (dispose ?c (s4\<lparr>deriveds := x\<rparr>)\<lparr>deriveds := y\<rparr>)"
          using trans [OF trans [OF upd_deriveds do_dispose] upd_deriveds] .
        have fin': "\<And>s4 x y ev. (\<forall>d. ev \<noteq> Compute d) \<Longrightarrow>
            R s4 (emit ev (dispose ?c (s4\<lparr>deriveds := x\<rparr>)\<lparr>deriveds := y\<rparr>))"
          using trans [OF fin do_emit] .
        from ex DerivedGet True Inr
        have cases: "(\<exists>err. exec n (Run (dcb (deriveds ?s3 d))) (emit (Compute d) ?s3) = Some (Inl err, s'))
          \<or> (\<exists>v s4. exec n (Run (dcb (deriveds ?s3 d))) (emit (Compute d) ?s3) = Some (Inr v, s4) \<and>
               R s4 s')"
          by (auto simp: Let_def split_beta fin fin' split: sum.splits option.splits prod.splits if_splits)
        then show ?thesis
          using a3 by (auto dest!: IH) (meson trans)+
      qed
    qed
  next
    case (SignalSet i v)
    show ?thesis
    proof (cases "strict_eq (svalue (signals s i)) v")
      case True
      with ex SignalSet show ?thesis
        by (auto simp: refl do_emit split: if_splits)
    next
      case False
      let ?r1 = "case v of Promise p \<Rightarrow> createPromise i p s | _ \<Rightarrow> (v, s)"
      have a1: "R s (snd ?r1)"
        by (cases v) (simp_all add: refl do_create)
      let ?s3 = "set_hook i (set_svalue i (fst ?r1) (snd ?r1))"
      have a3: "R s ?s3"
        using trans [OF trans [OF a1 do_store] do_hook] .
      have a4: "R s (?s3\<lparr>microtasks := microtasks ?s3 @ [CheckPending i]\<rparr>)"
        using trans [OF a3 upd_microtasks] .
      from ex SignalSet False a3 a4 show ?thesis
        by (auto simp: Let_def split_beta split: if_splits dest!: IH) (meson trans)+
    qed
  next
    case (Run sc)
    show ?thesis
    proof (cases sc)
      case (Return v)
      with ex Run show ?thesis by (simp add: refl)
    next
      case (Throw err)
      with ex Run show ?thesis by (simp add: refl)
    next
      case (GetSignal i k)
      have "R s (snd (signal_get i s))" by (simp add: signal_get_def do_track)
      with ex Run GetSignal show ?thesis
        by (auto simp: split_beta dest!: IH) (meson trans)+
    next
      case (SetSignal i v k)
      with ex Run show ?thesis
        by (auto split: option.splits sum.splits prod.splits dest!: IH) (meson trans)+
    next
      case (GetDerived d k)
      with ex Run show ?thesis
        by (auto split: option.splits sum.splits prod.splits dest!: IH) (meson trans)+
    next
      case (Use p k)
      with ex Run show ?thesis
        by (auto simp: refl split: sum.splits dest!: IH)
    qed
  qed
qed

section \<open>What the steps of the module leave alone\<close>

lemma fold_keeps:
  assumes "\<And>x s. g (f x s) = g s"
  shows "g (fold f xs s) = g s"
  by (induction xs arbitrary: s) (simp_all add: assms)

lemma emit_frame [simp]:
  "version (emit e s) = version s"
  "stack (emit e s) = stack s"
  "ctxs (emit e s) = ctxs s"
  "next_context (emit e s) = next_context s"
  "trackers (emit e s) = trackers s"
  "signals (emit e s) = signals s"
  "deriveds (emit e s) = deriveds s"
  "effects (emit e s) = effects s"
  "promises (emit e s) = promises s"
  "next_promise (emit e s) = next_promise s"
  "aborted (emit e s) = aborted s"
  "next_controller (emit e s) = next_controller s"
  "microtasks (emit e s) = microtasks s"
  "signalDebugHooks (emit e s) = signalDebugHooks s"
  "activeStoreContainer (emit e s) = activeStoreContainer s"
  "development (emit e s) = development s"
  by (simp_all add: emit_def)

lemma addContext_frame [simp]:
  "version (addContext t c s) = version s"
  "stack (addContext t c s) = stack s"
  "ctxs (addContext t c s) = ctxs s"
  "next_context (addContext t c s) = next_context s"
  "signals (addContext t c s) = signals s"
  "deriveds (addContext t c s) = deriveds s"
  "effects (addContext t c s) = effects s"
  "promises (addContext t c s) = promises s"
  "next_promise (addContext t c s) = next_promise s"
  "aborted (addContext t c s) = aborted s"
  "next_controller (addContext t c s) = next_controller s"
  "microtasks (addContext t c s) = microtasks s"
  "signalDebugHooks (addContext t c s) = signalDebugHooks s"
  "activeStoreContainer (addContext t c s) = activeStoreContainer s"
  "development (addContext t c s) = development s"
  "trace (addContext t c s) = trace s"
  by (simp_all add: addContext_def)

lemma removeContext_frame [simp]:
  "version (removeContext t c s) = version s"
  "stack (removeContext t c s) = stack s"
  "ctxs (removeContext t c s) = ctxs s"
  "next_context (removeContext t c s) = next_context s"
  "signals (removeContext t c s) = signals s"
  "deriveds (removeContext t c s) = deriveds s"
  "effects (removeContext t c s) = effects s"
  "promises (removeContext t c s) = promises s"
  "next_promise (removeContext t c s) = next_promise s"
  "aborted (removeContext t c s) = aborted s"
  "next_controller (removeContext t c s) = next_controller s"
  "microtasks (removeContext t c s) = microtasks s"
  "signalDebugHooks (removeContext t c s) = signalDebugHooks s"
  "activeStoreContainer (removeContext t c s) = activeStoreContainer s"
  "development (removeContext t c s) = development s"
  "trace (removeContext t c s) = trace s"
  by (simp_all add: removeContext_def)

lemma subscribe_frame [simp]:
  "version (subscribe c s) = version s"
  "stack (subscribe c s) = stack s"
  "ctxs (subscribe c s) = ctxs s"
  "next_context (subscribe c s) = next_context s"
  "signals (subscribe c s) = signals s"
  "deriveds (subscribe c s) = deriveds s"
  "effects (subscribe c s) = effects s"
  "promises (subscribe c s) = promises s"
  "next_promise (subscribe c s) = next_promise s"
  "aborted (subscribe c s) = aborted s"
  "next_controller (subscribe c s) = next_controller s"
  "microtasks (subscribe c s) = microtasks s"
  "signalDebugHooks (subscribe c s) = signalDebugHooks s"
  "activeStoreContainer (subscribe c s) = activeStoreContainer s"
  "development (subscribe c s) = development s"
  "trace (subscribe c s) = trace s"
  unfolding subscribe_def by (rule fold_keeps, simp)+

lemma unsubscribe_frame [simp]:
  "version (unsubscribe c s) = version s"
  "stack (unsubscribe c s) = stack s"
  "ctxs (unsubscribe c s) = ctxs s"
  "next_context (unsubscribe c s) = next_context s"
  "signals (unsubscribe c s) = signals s"
  "deriveds (unsubscribe c s) = deriveds s"
  "effects (unsubscribe c s) = effects s"
  "promises (unsubscribe c s) = promises s"
  "next_promise (unsubscribe c s) = next_promise s"
  "aborted (unsubscribe c s) = aborted s"
  "next_controller (unsubscribe c s) = next_controller s"
  "microtasks (unsubscribe c s) = microtasks s"
  "signalDebugHooks (unsubscribe c s) = signalDebugHooks s"
  "activeStoreContainer (unsubscribe c s) = activeStoreContainer s"
  "development (unsubscribe c s) = development s"
  "trace (unsubscribe c s) = trace s"
  unfolding unsubscribe_def by (rule fold_keeps, simp)+

lemma dispose_frame [simp]:
  "version (dispose c s) = version s"
  "ctxs (dispose c s) = ctxs s"
  "next_context (dispose c s) = next_context s"
  "signals (dispose c s) = signals s"
  "deriveds (dispose c s) = deriveds s"
  "effects (dispose c s) = effects s"
  "promises (dispose c s) = promises s"
  "next_promise (dispose c s) = next_promise s"
  "aborted (dispose c s) = aborted s"
  "next_controller (dispose c s) = next_controller s"
  "microtasks (dispose c s) = microtasks s"
  "signalDebugHooks (dispose c s) = signalDebugHooks s"
  "activeStoreContainer (dispose c s) = activeStoreContainer s"
  "development (dispose c s) = development s"
  "trace (dispose c s) = trace s"
  by (simp_all add: dispose_def)

lemma call_disposer_frame [simp]:
  "version (snd (call_disposer f s)) = version s"
  "stack (snd (call_disposer f s)) = stack s"
  "ctxs (snd (call_disposer f s)) = ctxs s"
  "next_context (snd (call_disposer f s)) = next_context s"
  "signals (snd (call_disposer f s)) = signals s"
  "deriveds (snd (call_disposer f s)) = deriveds s"
  "effects (snd (call_disposer f s)) = effects s"
  "promises (snd (call_disposer f s)) = promises s"
  "next_promise (snd (call_disposer f s)) = next_promise s"
  "aborted (snd (call_disposer f s)) = aborted s"
  "next_controller (snd (call_disposer f s)) = next_controller s"
  "microtasks (snd (call_disposer f s)) = microtasks s"
  "signalDebugHooks (snd (call_disposer f s)) = signalDebugHooks s"
  "activeStoreContainer (snd (call_disposer f s)) = activeStoreContainer s"
  "development (snd (call_disposer f s)) = development s"
  "trace (snd (call_disposer f s)) = trace s"
  by (simp_all add: call_disposer_def split: jsval.splits)

lemma optional_call_frame [simp]:
  "version (snd (optional_call f s)) = version s"
  "stack (snd (optional_call f s)) = stack s"
  "ctxs (snd (optional_call f s)) = ctxs s"
  "next_context (snd (optional_call f s)) = next_context s"
  "signals (snd (optional_call f s)) = signals s"
  "deriveds (snd (optional_call f s)) = deriveds s"
  "effects (snd (optional_call f s)) = effects s"
  "promises (snd (optional_call f s)) = promises s"
  "next_promise (snd (optional_call f s)) = next_promise s"
  "aborted (snd (optional_call f s)) = aborted s"
  "next_controller (snd (optional_call f s)) = next_controller s"
  "microtasks (snd (optional_call f s)) = microtasks s"
  "signalDebugHooks (snd (optional_call f s)) = signalDebugHooks s"
  "activeStoreContainer (snd (optional_call f s)) = activeStoreContainer s"
  "development (snd (optional_call f s)) = development s"
  "trace (snd (optional_call f s)) = trace s"
  by (simp_all add: optional_call_def split: jsval.splits)

lemma new_ObserverContext_frame [simp]:
  "version (snd (new_ObserverContext ty u s)) = version s"
  "trackers (snd (new_ObserverContext ty u s)) = trackers s"
  "signals (snd (new_ObserverContext ty u s)) = signals s"
  "deriveds (snd (new_ObserverContext ty u s)) = deriveds s"
  "effects (snd (new_ObserverContext ty u s)) = effects s"
  "promises (snd (new_ObserverContext ty u s)) = promises s"
  "next_promise (snd (new_ObserverContext ty u s)) = next_promise s"
  "aborted (snd (new_ObserverContext ty u s)) = aborted s"
  "next_controller (snd (new_ObserverContext ty u s)) = next_controller s"
  "microtasks (snd (new_ObserverContext ty u s)) = microtasks s"
  "signalDebugHooks (snd (new_ObserverContext ty u s)) = signalDebugHooks s"
  "activeStoreContainer (snd (new_ObserverContext ty u s)) = activeStoreContainer s"
  "development (snd (new_ObserverContext ty u s)) = development s"
  "trace (snd (new_ObserverContext ty u s)) = trace s"
  by (simp_all add: new_ObserverContext_def Let_def)

lemma track_get_frame [simp]:
  "version (track_get t s) = version s"
  "stack (track_get t s) = stack s"
  "next_context (track_get t s) = next_context s"
  "trackers (track_get t s) = trackers s"
  "signals (track_get t s) = signals s"
  "deriveds (track_get t s) = deriveds s"
  "effects (track_get t s) = effects s"
  "promises (track_get t s) = promises s"
  "next_promise (track_get t s) = next_promise s"
  "aborted (track_get t s) = aborted s"
  "next_controller (track_get t s) = next_controller s"
  "microtasks (track_get t s) = microtasks s"
  "signalDebugHooks (track_get t s) = signalDebugHooks s"
  "activeStoreContainer (track_get t s) = activeStoreContainer s"
  "development (track_get t s) = development s"
  by (simp_all add: track_get_def Let_def emit_def split: option.splits)

lemma set_svalue_frame [simp]:
  "version (set_svalue i v s) = version s"
  "stack (set_svalue i v s) = stack s"
  "ctxs (set_svalue i v s) = ctxs s"
  "next_context (set_svalue i v s) = next_context s"
  "trackers (set_svalue i v s) = trackers s"
  "deriveds (set_svalue i v s) = deriveds s"
  "effects (set_svalue i v s) = effects s"
  "promises (set_svalue i v s) = promises s"
  "next_promise (set_svalue i v s) = next_promise s"
  "aborted (set_svalue i v s) = aborted s"
  "next_controller (set_svalue i v s) = next_controller s"
  "microtasks (set_svalue i v s) = microtasks s"
  "signalDebugHooks (set_svalue i v s) = signalDebugHooks s"
  "activeStoreContainer (set_svalue i v s) = activeStoreContainer s"
  "development (set_svalue i v s) = development s"
  "trace (set_svalue i v s) = trace s"
  by (simp_all add: set_svalue_def)

lemma set_hook_frame [simp]:
  "version (set_hook i s) = version s"
  "stack (set_hook i s) = stack s"
  "next_context (set_hook i s) = next_context s"
  "trackers (set_hook i s) = trackers s"
  "signals (set_hook i s) = signals s"
  "deriveds (set_hook i s) = deriveds s"
  "effects (set_hook i s) = effects s"
  "promises (set_hook i s) = promises s"
  "next_promise (set_hook i s) = next_promise s"
  "aborted (set_hook i s) = aborted s"
  "next_controller (set_hook i s) = next_controller s"
  "microtasks (set_hook i s) = microtasks s"
  "signalDebugHooks (set_hook i s) = signalDebugHooks s"
  "activeStoreContainer (set_hook i s) = activeStoreContainer s"
  "development (set_hook i s) = development s"
  by (simp_all add: set_hook_def Let_def emit_def split: option.splits)

lemma promise_then_frame [simp]:
  "version (promise_then i a w p s) = version s"
  "stack (promise_then i a w p s) = stack s"
  "ctxs (promise_then i a w p s) = ctxs s"
  "next_context (promise_then i a w p s) = next_context s"
  "trackers (promise_then i a w p s) = trackers s"
  "signals (promise_then i a w p s) = signals s"
  "deriveds (promise_then i a w p s) = deriveds s"
  "effects (promise_then i a w p s) = effects s"
  "next_promise (promise_then i a w p s) = next_promise s"
  "aborted (promise_then i a w p s) = aborted s"
  "next_controller (promise_then i a w p s) = next_controller s"
  "signalDebugHooks (promise_then i a w p s) = signalDebugHooks s"
  "activeStoreContainer (promise_then i a w p s) = activeStoreContainer s"
  "development (promise_then i a w p s) = development s"
  "trace (promise_then i a w p s) = trace s"
  by (simp_all add: promise_then_def split: settlement.splits)

lemma new_promise_frame [simp]:
  "version (snd (new_promise obj s)) = version s"
  "stack (snd (new_promise obj s)) = stack s"
  "ctxs (snd (new_promise obj s)) = ctxs s"
  "next_context (snd (new_promise obj s)) = next_context s"
  "trackers (snd (new_promise obj s)) = trackers s"
  "signals (snd (new_promise obj s)) = signals s"
  "deriveds (snd (new_promise obj s)) = deriveds s"
  "effects (snd (new_promise obj s)) = effects s"
  "aborted (snd (new_promise obj s)) = aborted s"
  "next_controller (snd (new_promise obj s)) = next_controller s"
  "microtasks (snd (new_promise obj s)) = microtasks s"
  "signalDebugHooks (snd (new_promise obj s)) = signalDebugHooks s"
  "activeStoreContainer (snd (new_promise obj s)) = activeStoreContainer s"
  "development (snd (new_promise obj s)) = development s"
  "trace (snd (new_promise obj s)) = trace s"
  by (simp_all add: new_promise_def Let_def)

lemma createPromise_frame [simp]:
  "version (snd (createPromise i p s)) = version s"
  "stack (snd (createPromise i p s)) = stack s"
  "ctxs (snd (createPromise i p s)) = ctxs s"
  "next_context (snd (createPromise i p s)) = next_context s"
  "trackers (snd (createPromise i p s)) = trackers s"
  "deriveds (snd (createPromise i p s)) = deriveds s"
  "effects (snd (createPromise i p s)) = effects s"
  "signalDebugHooks (snd (createPromise i p s)) = signalDebugHooks s"
  "activeStoreContainer (snd (createPromise i p s)) = activeStoreContainer s"
  "development (snd (createPromise i p s)) = development s"
  "trace (snd (createPromise i p s)) = trace s"
  by (simp_all add: createPromise_def Let_def split_beta split: option.splits)

lemma signal_get_frame [simp]:
  "version (snd (signal_get i s)) = version s"
  "stack (snd (signal_get i s)) = stack s"
  "next_context (snd (signal_get i s)) = next_context s"
  "trackers (snd (signal_get i s)) = trackers s"
  "signals (snd (signal_get i s)) = signals s"
  "deriveds (snd (signal_get i s)) = deriveds s"
  "effects (snd (signal_get i s)) = effects s"
  "promises (snd (signal_get i s)) = promises s"
  "next_promise (snd (signal_get i s)) = next_promise s"
  "aborted (snd (signal_get i s)) = aborted s"
  "next_controller (snd (signal_get i s)) = next_controller s"
  "microtasks (snd (signal_get i s)) = microtasks s"
  "signalDebugHooks (snd (signal_get i s)) = signalDebugHooks s"
  "activeStoreContainer (snd (signal_get i s)) = activeStoreContainer s"
  "development (snd (signal_get i s)) = development s"
  by (simp_all add: signal_get_def)

lemma store_fulfilled_frame [simp]:
  "version (store_fulfilled i v s) = version s"
  "stack (store_fulfilled i v s) = stack s"
  "ctxs (store_fulfilled i v s) = ctxs s"
  "next_context (store_fulfilled i v s) = next_context s"
  "trackers (store_fulfilled i v s) = trackers s"
  "deriveds (store_fulfilled i v s) = deriveds s"
  "effects (store_fulfilled i v s) = effects s"
  "aborted (store_fulfilled i v s) = aborted s"
  "next_controller (store_fulfilled i v s) = next_controller s"
  "microtasks (store_fulfilled i v s) = microtasks s"
  "signalDebugHooks (store_fulfilled i v s) = signalDebugHooks s"
  "activeStoreContainer (store_fulfilled i v s) = activeStoreContainer s"
  "development (store_fulfilled i v s) = development s"
  "trace (store_fulfilled i v s) = trace s"
  by (simp_all add: store_fulfilled_def Let_def split_beta)

lemma store_rejected_frame [simp]:
  "version (store_rejected i v s) = version s"
  "stack (store_rejected i v s) = stack s"
  "ctxs (store_rejected i v s) = ctxs s"
  "next_context (store_rejected i v s) = next_context s"
  "trackers (store_rejected i v s) = trackers s"
  "deriveds (store_rejected i v s) = deriveds s"
  "effects (store_rejected i v s) = effects s"
  "aborted (store_rejected i v s) = aborted s"
  "next_controller (store_rejected i v s) = next_controller s"
  "microtasks (store_rejected i v s) = microtasks s"
  "signalDebugHooks (store_rejected i v s) = signalDebugHooks s"
  "activeStoreContainer (store_rejected i v s) = activeStoreContainer s"
  "development (store_rejected i v s) = development s"
  "trace (store_rejected i v s) = trace s"
  by (simp_all add: store_rejected_def Let_def split_beta)

lemma resolve_promise_frame [simp]:
  "version (resolve_promise p v s) = version s"
  "stack (resolve_promise p v s) = stack s"
  "ctxs (resolve_promise p v s) = ctxs s"
  "next_context (resolve_promise p v s) = next_context s"
  "trackers (resolve_promise p v s) = trackers s"
  "signals (resolve_promise p v s) = signals s"
  "deriveds (resolve_promise p v s) = deriveds s"
  "effects (resolve_promise p v s) = effects s"
  "next_promise (resolve_promise p v s) = next_promise s"
  "aborted (resolve_promise p v s) = aborted s"
  "next_controller (resolve_promise p v s) = next_controller s"
  "signalDebugHooks (resolve_promise p v s) = signalDebugHooks s"
  "activeStoreContainer (resolve_promise p v s) = activeStoreContainer s"
  "development (resolve_promise p v s) = development s"
  "trace (resolve_promise p v s) = trace s"
  by (simp_all add: resolve_promise_def split: settlement.splits)

lemma reject_promise_frame [simp]:
  "version (reject_promise p v s) = version s"
  "stack (reject_promise p v s) = stack s"
  "ctxs (reject_promise p v s) = ctxs s"
  "next_context (reject_promise p v s) = next_context s"
  "trackers (reject_promise p v s) = trackers s"
  "signals (reject_promise p v s) = signals s"
  "deriveds (reject_promise p v s) = deriveds s"
  "effects (reject_promise p v s) = effects s"
  "next_promise (reject_promise p v s) = next_promise s"
  "aborted (reject_promise p v s) = aborted s"
  "next_controller (reject_promise p v s) = next_controller s"
  "signalDebugHooks (reject_promise p v s) = signalDebugHooks s"
  "activeStoreContainer (reject_promise p v s) = activeStoreContainer s"
  "development (reject_promise p v s) = development s"
  "trace (reject_promise p v s) = trace s"
  by (simp_all add: reject_promise_def split: settlement.splits)

section \<open>Evaluating example programs\<close>

lemmas engine_defs =
  signal_def derived_def effect_def observer_def init_def plain_promise_def
  new_ObserverContext_def fresh_context_def new_promise_def createPromise_def promise_then_def
  set_svalue_def set_hook_def track_get_def signal_get_def current_def emit_def
  isResolvingContextFromComponent_def registerGetter_def registerSetter_def
  dispose_def subscribe_def unsubscribe_def addContext_def removeContext_def
  call_disposer_def optional_call_def is_pending_def use_value_def use_def
  store_fulfilled_def store_rejected_def resolve_promise_def reject_promise_def
  set_has_def set_add_def set_delete_def
  signal_set_def derived_get_def tracker_notify_def forEach_notify_def context_notify_def
  updater_def run_def run_job_def seen_def
  Let_def split_beta

section \<open>A superseded asynchronous operation\<close>

lemma createPromise_fst: "fst (createPromise i p s) = Promise (next_promise s)"
  by (simp add: createPromise_def Let_def split_beta new_promise_def split: option.splits)

lemma createPromise_supersedes:
  "currentAbortController (signals s i) = Some a1 \<Longrightarrow> a1 < next_controller s \<Longrightarrow>
   superseded (snd (createPromise i p s)) a1"
  by (simp add: superseded_def createPromise_def Let_def split_beta)


lemma createPromise_controller:
  "currentAbortController (signals (snd (createPromise i p s)) i) = Some (next_controller s) \<and>
   \<not> aborted (snd (createPromise i p s)) (next_controller s)"
  by (simp add: createPromise_def Let_def split_beta split: option.splits)



lemma signal_set_supersedes:
  assumes "currentAbortController (signals s i) = Some a1" and "a1 < next_controller s"
    and "\<not> strict_eq (svalue (signals s i)) (Promise o2)"
  shows "\<exists>s'. signal_set (Suc n) i (Promise o2) s = Some (Inr Undefined, s') \<and>
              superseded s' a1 \<and>
              currentAbortController (signals s' i) = Some (next_controller s) \<and>
              \<not> aborted s' (next_controller s)"
proof -
  let ?s1 = "snd (createPromise i o2 s)"
  let ?s3 = "set_hook i (set_svalue i (Promise (next_promise s)) ?s1)"
  have sup: "superseded ?s3 a1"
    using createPromise_supersedes [OF assms(1,2), of o2] by (simp add: superseded_def)
  have ctl: "currentAbortController (signals ?s3 i) = Some (next_controller s) \<and>
             \<not> aborted ?s3 (next_controller s)"
    using createPromise_controller [of i o2 s] by (simp add: set_svalue_def)
  have "signal_set (Suc n) i (Promise o2) s = Some (Inr Undefined, ?s3) \<or>
        signal_set (Suc n) i (Promise o2) s =
          Some (Inr Undefined, ?s3\<lparr>microtasks := microtasks ?s3 @ [CheckPending i]\<rparr>)"
    using assms(3)
    by (simp add: signal_set_def Let_def split_beta createPromise_fst set_svalue_def)
  with sup ctl show ?thesis
    by (auto simp: superseded_def)
qed











lemma tied_microtasks [simp]: "tied (s\<lparr>microtasks := x\<rparr>) i a = tied s i a"
  by (simp add: tied_def)

lemma tied_store [simp]:
  "tied (store_fulfilled k v s) i a = tied s i a"
  "tied (store_rejected k v s) i a = tied s i a"
  by (simp_all add: tied_def store_fulfilled_def store_rejected_def new_promise_def set_svalue_def
      Let_def)

lemma tied_settle [simp]:
  "tied (resolve_promise p v s) i a = tied s i a"
  "tied (reject_promise p v s) i a = tied s i a"
  by (simp_all add: tied_def)














lemmas race_defs = raced_def drained_def race_written_def race_checked_def race_stale_def
  race_won_def after_def in_flight_def chained_def chained_settled_def














text \<open>
  The wrapper a signal holds settles when the handlers of its chain have run: a second
  signal created with the wrapper of the first follows it.
\<close>

lemma chained_wrapper_settles:
  "svalue (signals chained 0) = Promise 2 \<and> svalue (signals chained 1) = Promise 3 \<and>
   reactions (promises chained 2) = [(1, 1, 3)] \<and>
   run_microtasks 8 (resolve_promise 0 (Num 7) chained) = Some chained_settled \<and>
   settled (promises chained_settled 2) = FulfilledWith (Num 7) \<and>
   svalue (signals chained_settled 0) = Promise 4 \<and>
   pstatus (promises chained_settled 4) = Some (Fulfilled (Num 7)) \<and>
   svalue (signals chained_settled 1) = Promise 5 \<and>
   pstatus (promises chained_settled 5) = Some (Fulfilled (Num 7)) \<and>
   settled (promises chained_settled 3) = FulfilledWith (Num 7)"
  by (simp add: race_defs engine_defs eval_nat_numeral)


section \<open>When a write notifies\<close>

lemma watched_facts:
  "svalue (signals watched 0) = Num 0"
  "settled (promises watched 0) = Unsettled"
  "contexts (trackers watched (OfSignal 0)) = [Some 0]"
  "version watched = 0" "trace watched = []" "microtasks watched = []" "stack watched = []"
  "next_promise watched = 1"
  by (simp_all add: watched_def engine_defs)

text \<open>
  C8, as stated, fails. The component's context depends on signal 0, and the signal is
  assigned promise 0, which is not settled: the write is accepted, its wrapper is not
  made from an already-resolved input, and still nothing is notified within the write
  (the version count stays 0, \<open>setState\<close> is not called); only the deferred check is
  queued. A write of the number 1 to the same signal notifies within the write.
\<close>

theorem deferred_counterexample:
  "\<not> strict_eq (svalue (signals watched 0)) (Promise 0) \<and>
   settled (promises watched 0) = Unsettled \<and>
   set_values (contexts (trackers watched (OfSignal 0))) = [0] \<and>
   seen (signal_set 4 0 (Promise 0) watched) = Some (Inr Undefined, 0, [], [CheckPending 0]) \<and>
   seen (signal_set 4 0 (Num 1) watched) = Some (Inr Undefined, 1, [SetStateCall 0 0], [])"
  by (simp add: watched_def engine_defs eval_nat_numeral)

lemma createPromise_pending:
  "pstatus (promises (snd (createPromise i p s)) (next_promise s)) = Some Pending"
  by (simp add: createPromise_def Let_def split_beta new_promise_def promise_then_def
      split: option.splits settlement.splits)

lemma createPromise_queue:
  "\<exists>js. microtasks (snd (createPromise i p s)) = microtasks s @ js"
  by (simp add: createPromise_def Let_def split_beta new_promise_def promise_then_def
      split: option.splits settlement.splits)

lemma createPromise_svalue [simp]:
  "svalue (signals (snd (createPromise i p s)) j) = svalue (signals s j)"
  by (simp add: createPromise_def Let_def split_beta new_promise_def promise_then_def
      split: option.splits settlement.splits)

lemma signal_set_promise:
  assumes "\<not> strict_eq (svalue (signals s i)) (Promise p)"
    and "svalue (signals s i) \<noteq> Promise (next_promise s)"
  shows "signal_set (Suc n) i (Promise p) s =
           Some (Inr Undefined,
                 (set_hook i (set_svalue i (Promise (next_promise s)) (snd (createPromise i p s))))
                   \<lparr>microtasks := microtasks (snd (createPromise i p s)) @ [CheckPending i]\<rparr>)"
proof -
  have "\<not> strict_eq (Promise (next_promise s)) (svalue (signals s i))"
    using assms(2) by (cases "svalue (signals s i)") auto
  then show ?thesis
    using assms(1)
    by (simp add: signal_set_def Let_def split_beta createPromise_fst set_svalue_def)
qed

lemma signal_set_plain:
  assumes "\<not> strict_eq (svalue (signals s i)) v" and "\<not> is_promise v"
  shows "signal_set (Suc n) i v s = tracker_notify n (OfSignal i) (set_hook i (set_svalue i v s))"
proof -
  have "\<not> strict_eq v (svalue (signals s i))"
    using assms(1) by (simp add: strict_eq_sym)
  then show ?thesis
    using assms
    by (cases v) (simp_all add: signal_set_def tracker_notify_def Let_def set_svalue_def)
qed

text \<open>
  C8, amended. An accepted write of any promise, settled or not, notifies nobody within
  the write: it stores the pending wrapper and queues the check behind whatever
  \<open>createPromise\<close> queued. The check, when its microtask runs, notifies the tracker if
  and only if the value the signal holds at that point is a promise whose status is
  \<open>pending\<close>. An accepted write of any other value notifies the tracker within the
  write.
\<close>

theorem deferred_notification:
  "(\<not> strict_eq (svalue (signals s i)) (Promise p) \<and> svalue (signals s i) \<noteq> Promise (next_promise s) \<longrightarrow>
      (\<exists>s'. signal_set (Suc n) i (Promise p) s = Some (Inr Undefined, s') \<and>
            version s' = version s \<and> trackers s' = trackers s \<and>
            deriveds s' = deriveds s \<and> effects s' = effects s \<and>
            svalue (signals s' i) = Promise (next_promise s) \<and>
            is_pending s' (svalue (signals s' i)) \<and>
            (\<exists>js. microtasks s' = microtasks s @ js @ [CheckPending i]))) \<and>
   run_job m (CheckPending i) s =
     (if is_pending s (svalue (signals s i)) then
        (case tracker_notify m (OfSignal i) s of None \<Rightarrow> None | Some (r, s1) \<Rightarrow> Some s1)
      else Some s) \<and>
   (\<not> strict_eq (svalue (signals s i)) v \<and> \<not> is_promise v \<longrightarrow>
      signal_set (Suc n) i v s = tracker_notify n (OfSignal i) (set_hook i (set_svalue i v s)))"
proof -
  have a: "\<not> strict_eq (svalue (signals s i)) (Promise p) \<and> svalue (signals s i) \<noteq> Promise (next_promise s) \<longrightarrow>
      (\<exists>s'. signal_set (Suc n) i (Promise p) s = Some (Inr Undefined, s') \<and>
            version s' = version s \<and> trackers s' = trackers s \<and>
            deriveds s' = deriveds s \<and> effects s' = effects s \<and>
            svalue (signals s' i) = Promise (next_promise s) \<and>
            is_pending s' (svalue (signals s' i)) \<and>
            (\<exists>js. microtasks s' = microtasks s @ js @ [CheckPending i]))"
  proof
    assume h: "\<not> strict_eq (svalue (signals s i)) (Promise p) \<and> svalue (signals s i) \<noteq> Promise (next_promise s)"
    let ?s' = "(set_hook i (set_svalue i (Promise (next_promise s)) (snd (createPromise i p s))))
                   \<lparr>microtasks := microtasks (snd (createPromise i p s)) @ [CheckPending i]\<rparr>"
    have 1: "signal_set (Suc n) i (Promise p) s = Some (Inr Undefined, ?s')"
      using h signal_set_promise by blast
    have 2: "svalue (signals ?s' i) = Promise (next_promise s)"
      by (simp add: set_svalue_def)
    have 3: "is_pending ?s' (svalue (signals ?s' i))"
      unfolding 2 using createPromise_pending [of i p s]
      by (simp add: is_pending_def set_svalue_def)
    have 4: "\<exists>js. microtasks ?s' = microtasks s @ js @ [CheckPending i]"
      using createPromise_queue [of i p s] by auto
    have 5: "version ?s' = version s \<and> trackers ?s' = trackers s \<and>
            deriveds ?s' = deriveds s \<and> effects ?s' = effects s"
      by simp
    from 1 2 3 4 5 show "\<exists>s'. signal_set (Suc n) i (Promise p) s = Some (Inr Undefined, s') \<and>
            version s' = version s \<and> trackers s' = trackers s \<and>
            deriveds s' = deriveds s \<and> effects s' = effects s \<and>
            svalue (signals s' i) = Promise (next_promise s) \<and>
            is_pending s' (svalue (signals s' i)) \<and>
            (\<exists>js. microtasks s' = microtasks s @ js @ [CheckPending i])"
      by blast
  qed
  have b: "run_job m (CheckPending i) s =
     (if is_pending s (svalue (signals s i)) then
        (case tracker_notify m (OfSignal i) s of None \<Rightarrow> None | Some (r, s1) \<Rightarrow> Some s1)
      else Some s)"
    by (simp add: run_job_def)
  from a b signal_set_plain [of s i v n] show ?thesis by blast
qed

text \<open>
  The watched signal is assigned the unsettled promise 0 and, instead, the number 1.
\<close>

theorem deferred_notification_witness:
  "(\<exists>s'. signal_set 1 0 (Promise 0) watched = Some (Inr Undefined, s') \<and>
         version s' = 0 \<and> svalue (signals s' 0) = Promise 1 \<and>
         is_pending s' (svalue (signals s' 0)) \<and>
         (\<exists>js. microtasks s' = js @ [CheckPending 0])) \<and>
   signal_set 4 0 (Num 1) watched = tracker_notify 3 (OfSignal 0) (set_hook 0 (set_svalue 0 (Num 1) watched)) \<and>
   seen (tracker_notify 3 (OfSignal 0) (set_hook 0 (set_svalue 0 (Num 1) watched))) =
     Some (Inr Undefined, 1, [SetStateCall 0 0], [])"
proof -
  have pre: "\<not> strict_eq (svalue (signals watched 0)) (Promise 0) \<and>
             svalue (signals watched 0) \<noteq> Promise (next_promise watched)"
    by (simp add: watched_facts)
  have "\<exists>s'. signal_set (Suc 0) 0 (Promise 0) watched = Some (Inr Undefined, s') \<and>
            version s' = version watched \<and> trackers s' = trackers watched \<and>
            deriveds s' = deriveds watched \<and> effects s' = effects watched \<and>
            svalue (signals s' 0) = Promise (next_promise watched) \<and>
            is_pending s' (svalue (signals s' 0)) \<and>
            (\<exists>js. microtasks s' = microtasks watched @ js @ [CheckPending 0])"
    using deferred_notification [where s = watched and i = 0 and p = 0 and n = 0, THEN conjunct1] pre
    by (rule mp)
  then obtain s' where "signal_set (Suc 0) 0 (Promise 0) watched = Some (Inr Undefined, s')"
    "version s' = version watched" "svalue (signals s' 0) = Promise (next_promise watched)"
    "is_pending s' (svalue (signals s' 0))"
    "\<exists>js. microtasks s' = microtasks watched @ js @ [CheckPending 0]"
    by blast
  then have "signal_set 1 0 (Promise 0) watched = Some (Inr Undefined, s') \<and>
         version s' = 0 \<and> svalue (signals s' 0) = Promise 1 \<and>
         is_pending s' (svalue (signals s' 0)) \<and>
         (\<exists>js. microtasks s' = js @ [CheckPending 0])"
    by (simp add: watched_facts)
  then have first: "\<exists>s'. signal_set 1 0 (Promise 0) watched = Some (Inr Undefined, s') \<and>
         version s' = 0 \<and> svalue (signals s' 0) = Promise 1 \<and>
         is_pending s' (svalue (signals s' 0)) \<and>
         (\<exists>js. microtasks s' = js @ [CheckPending 0])"
    by blast
  have pre2: "\<not> strict_eq (svalue (signals watched 0)) (Num 1) \<and> \<not> is_promise (Num 1)"
    by (simp add: watched_facts)
  have second: "signal_set 4 0 (Num 1) watched =
      tracker_notify 3 (OfSignal 0) (set_hook 0 (set_svalue 0 (Num 1) watched))"
    using deferred_notification [where s = watched and i = 0 and v = "Num 1" and n = 3,
        THEN conjunct2, THEN conjunct2] pre2
    by (simp add: eval_nat_numeral)
  have third: "seen (tracker_notify 3 (OfSignal 0) (set_hook 0 (set_svalue 0 (Num 1) watched))) =
     Some (Inr Undefined, 1, [SetStateCall 0 0], [])"
    by (simp add: watched_def engine_defs eval_nat_numeral)
  from first second third show ?thesis by blast
qed

section \<open>A derived callback that throws\<close>

lemma app_frames [simp]:
  "app_stack (app_emit e s) = app_stack s"
  "app_stack (snd (app_new_ObserverContext s)) = app_stack s @ [app_next_context s]"
  "app_stack (app_dispose s) = butlast (app_stack s)"
  by (simp_all add: app_emit_def app_new_ObserverContext_def app_dispose_def Let_def)

lemma entered_stack:
  "stack (entered d s) = stack s @ [next_context s] \<and>
   current (entered d s) = Some (next_context s) \<and>
   ctype (ctxs (entered d s) (next_context s)) = Derived \<and>
   setters (ctxs (entered d s) (next_context s)) = []"
  by (simp add: entered_def current_def new_ObserverContext_def Let_def fresh_context_def)

lemma signal_get_registers:
  assumes "current t = Some c" and "ctype (ctxs t c) = Derived"
    and "\<not> set_has (setters (ctxs t c)) (OfSignal i)"
  shows "set_has (getters (ctxs (snd (signal_get i t)) c)) (OfSignal i) \<and>
         stack (snd (signal_get i t)) = stack t"
  using assms
  by (simp add: signal_get_def track_get_def isResolvingContextFromComponent_def Let_def
      emit_def registerGetter_def set_has_add)

lemma observe_throws:
  assumes "app_run n cb (app_emit (UseSyncExternalStore (app_next_context s)) (snd (app_new_ObserverContext s)))
             = Some (Inl err, s3)"
  shows "observe (Suc n) cb s = Some (Inl err, app_dispose s3)"
  using assms
  by (simp add: observe_def app_run_def app_new_ObserverContext_def Let_def)

lemma throwing_facts:
  "isDirty (deriveds throwing 0)"
  "disposer (deriveds throwing 0) = Undefined"
  "dcb (deriveds throwing 0) = GetSignal 0 (\<lambda>v. Throw (Str ''boom''))"
  "stack throwing = []" "next_context throwing = 0"
  by (simp_all add: throwing_def engine_defs)

text \<open>
  An induction over the calls of the module that knows how a call ended. A relation that
  holds across every step other than the creation and the disposal of a context, across
  a context's creation followed by its disposal, and (for a call that threw) across a
  creation that no disposal follows, holds between the state before and the state after
  every call that returns.
\<close>

lemma exec_bracket:
  assumes refl: "\<And>s. R s True s"
    and trans: "\<And>s t u b. R s True t \<Longrightarrow> R t b u \<Longrightarrow> R s b u"
    and weaken: "\<And>s t. R s True t \<Longrightarrow> R s False t"
    and upd_version: "\<And>s x. R s True (s\<lparr>version := x\<rparr>)"
    and upd_deriveds: "\<And>s x. R s True (s\<lparr>deriveds := x\<rparr>)"
    and upd_effects: "\<And>s x. R s True (s\<lparr>effects := x\<rparr>)"
    and upd_microtasks: "\<And>s i. R s True (s\<lparr>microtasks := microtasks s @ [CheckPending i]\<rparr>)"
    and do_emit: "\<And>s e. R s True (emit e s)"
    and do_call: "\<And>s f. R s True (snd (call_disposer f s))"
    and do_track: "\<And>s t. R s True (track_get t s)"
    and do_create: "\<And>s i p. R s True (snd (createPromise i p s))"
    and do_store: "\<And>s i v. R s True (set_svalue i v s)"
    and do_hook: "\<And>s i. R s True (set_hook i s)"
    and leave: "\<And>s ty u t. R (snd (new_ObserverContext ty u s)) True t \<Longrightarrow>
                  R s True (dispose (next_context s) t)"
    and leak: "\<And>s ty u t. R (snd (new_ObserverContext ty u s)) False t \<Longrightarrow> R s False t"
  shows "exec n c s = Some (r, s') \<Longrightarrow> R s (\<not> isl r) s'"
proof (induction n arbitrary: c s r s')
  case 0
  then show ?case by simp
next
  case (Suc n)
  note IH = Suc.IH and ex = Suc.prems
  have do_opt: "\<And>s f. R s True (snd (optional_call f s))"
    using refl do_call by (simp add: optional_call_def split: jsval.splits)
  have any: "\<And>s t b. R s True t \<Longrightarrow> R s b t"
    using weaken by (case_tac b) auto
  have fst_new: "\<And>ty u s. fst (new_ObserverContext ty u s) = next_context s"
    by (simp add: new_ObserverContext_def Let_def)
  have seq: "R s0 (\<not> isl r) s'"
    if 1: "exec n c1 s0 = Some (r1, s1)"
      and 2: "(isl r1 \<and> r = r1 \<and> s' = s1) \<or> (\<not> isl r1 \<and> exec n c2 s1 = Some (r, s'))"
    for s0 c1 r1 s1 c2
  proof -
    from IH [OF 1] have a: "R s0 (\<not> isl r1) s1" .
    from 2 show ?thesis
    proof
      assume "isl r1 \<and> r = r1 \<and> s' = s1"
      with a show ?thesis by simp
    next
      assume b: "\<not> isl r1 \<and> exec n c2 s1 = Some (r, s')"
      with a have "R s0 True s1" by simp
      moreover from b IH have "R s1 (\<not> isl r) s'" by blast
      ultimately show ?thesis by (rule trans)
    qed
  qed
  show ?case
  proof (cases c)
    case (TrackerNotify t)
    with ex IH show ?thesis by simp
  next
    case (ForEachNotify cs)
    show ?thesis
    proof (cases cs)
      case Nil
      with ex ForEachNotify show ?thesis by (auto simp: refl)
    next
      case (Cons c' cs')
      with ex ForEachNotify
      have "\<exists>r1 s1. (exec n (ContextNotify c') s = Some (r1, s1)) \<and>
          ((isl r1 \<and> r = r1 \<and> s' = s1) \<or> (\<not> isl r1 \<and> exec n (ForEachNotify cs') s1 = Some (r, s')))"
        by (auto split: option.splits sum.splits prod.splits)
      then obtain r1 s1 where 1: "exec n (ContextNotify c') s = Some (r1, s1)"
        and 2: "(isl r1 \<and> r = r1 \<and> s' = s1) \<or> (\<not> isl r1 \<and> exec n (ForEachNotify cs') s1 = Some (r, s'))"
        by blast
      from seq [OF 1 2] show ?thesis .
    qed
  next
    case (ContextNotify c')
    let ?s1 = "s\<lparr>version := Suc (version s)\<rparr>"
    have a1: "R s True ?s1" by (rule upd_version)
    show ?thesis
    proof (cases "onUpdate (ctxs s c')")
      case (SetState k)
      with ex ContextNotify show ?thesis
        using trans [OF a1 do_emit] by (auto simp: Let_def)
    next
      case (DerivedUpdate d)
      let ?s2 = "?s1\<lparr>deriveds := (deriveds ?s1)(d := (deriveds ?s1 d)\<lparr>isDirty := True\<rparr>)\<rparr>"
      from ex ContextNotify DerivedUpdate
      have "exec n (TrackerNotify (OfDerived d)) ?s2 = Some (r, s')"
        by (simp add: Let_def)
      from trans [OF trans [OF a1 upd_deriveds] IH [OF this]] show ?thesis .
    next
      case (EffectUpdate e)
      let ?r2 = "call_disposer (currentSubscriptionDisposer (effects ?s1 e)) ?s1"
      have a2: "R s True (snd ?r2)" using trans [OF a1 do_call] .
      show ?thesis
      proof (cases "fst ?r2")
        case (Inl err)
        with ex ContextNotify EffectUpdate have "r = Inl err \<and> s' = snd ?r2"
          by (auto simp: Let_def split_beta split: sum.splits)
        with a2 show ?thesis by (simp add: weaken)
      next
        case (Inr u)
        with ex ContextNotify EffectUpdate
        have "\<exists>rr s3. (exec n (Updater e) (snd ?r2) = Some (rr, s3)) \<and>
            ((isl rr \<and> r = rr \<and> s' = s3) \<or>
                    (\<not> isl rr \<and> \<not> isl r \<and> (\<exists>x. s' = s3\<lparr>effects := x\<rparr>)))"
          by (auto simp: Let_def split: sum.splits option.splits prod.splits)
        then obtain rr s3 where run: "exec n (Updater e) (snd ?r2) = Some (rr, s3)"
          and fin: "(isl rr \<and> r = rr \<and> s' = s3) \<or>
                    (\<not> isl rr \<and> \<not> isl r \<and> (\<exists>x. s' = s3\<lparr>effects := x\<rparr>))"
          by blast
        from IH [OF run] have 3: "R (snd ?r2) (\<not> isl rr) s3" .
        from fin show ?thesis
        proof
          assume "isl rr \<and> r = rr \<and> s' = s3"
          with 3 a2 show ?thesis using trans by blast
        next
          assume "\<not> isl rr \<and> \<not> isl r \<and> (\<exists>x. s' = s3\<lparr>effects := x\<rparr>)"
          then obtain x where f: "\<not> isl rr" "\<not> isl r" "s' = s3\<lparr>effects := x\<rparr>"
            by blast
          from 3 f(1) have "R (snd ?r2) True s3" by simp
          from trans [OF a2 trans [OF this upd_effects]] f show ?thesis by simp
        qed
      qed
    qed
  next
    case (Updater e)
    let ?s1 = "snd (new_ObserverContext Effect (EffectUpdate e) s)"
    from ex Updater
    have "\<exists>rr s2. (exec n (Run (ecb (effects ?s1 e))) (emit (RunEffect e) ?s1) = Some (rr, s2)) \<and>
        ((isl rr \<and> r = rr \<and> s' = s2) \<or>
                (\<not> isl rr \<and> \<not> isl r \<and>
                 (s' = dispose (next_context s) s2 \<or> s' = dispose (next_context s) (emit (OnEffectRun e) s2))))"
      by (auto simp: Let_def split_beta fst_new split: sum.splits option.splits prod.splits if_splits)
    then obtain rr s2 where run: "exec n (Run (ecb (effects ?s1 e))) (emit (RunEffect e) ?s1) = Some (rr, s2)"
      and fin: "(isl rr \<and> r = rr \<and> s' = s2) \<or>
                (\<not> isl rr \<and> \<not> isl r \<and>
                 (s' = dispose (next_context s) s2 \<or> s' = dispose (next_context s) (emit (OnEffectRun e) s2)))"
      by blast
    from trans [OF do_emit IH [OF run]] have 1: "R ?s1 (\<not> isl rr) s2" .
    from fin show ?thesis
    proof
      assume "isl rr \<and> r = rr \<and> s' = s2"
      with 1 leak [of Effect "EffectUpdate e" s s2] show ?thesis by simp
    next
      assume a: "\<not> isl rr \<and> \<not> isl r \<and>
                 (s' = dispose (next_context s) s2 \<or> s' = dispose (next_context s) (emit (OnEffectRun e) s2))"
      with 1 have 2: "R ?s1 True s2" by simp
      from trans [OF 2 do_emit] have 3: "R ?s1 True (emit (OnEffectRun e) s2)" .
      from a leave [OF 2] leave [OF 3] show ?thesis by auto
    qed
  next
    case (DerivedGet d)
    let ?s1 = "track_get (OfDerived d) (emit (ReadDerived d) s)"
    have a1: "R s True ?s1" using trans [OF do_emit do_track] .
    show ?thesis
    proof (cases "isDirty (deriveds ?s1 d)")
      case False
      with ex DerivedGet a1 show ?thesis by (auto simp: Let_def)
    next
      case True
      let ?r2 = "optional_call (disposer (deriveds ?s1 d)) ?s1"
      have a2: "R s True (snd ?r2)" using trans [OF a1 do_opt] .
      show ?thesis
      proof (cases "fst ?r2")
        case (Inl err)
        with ex DerivedGet True have "r = Inl err \<and> s' = snd ?r2"
          by (auto simp: Let_def split_beta split: sum.splits)
        with a2 show ?thesis by (simp add: weaken)
      next
        case (Inr u)
        let ?s3 = "snd (new_ObserverContext Derived (DerivedUpdate d) (snd ?r2))"
        let ?c = "next_context s"
        have c: "next_context (snd ?r2) = ?c" by simp
        have fin: "\<And>s4 x y. R ?s3 True s4 \<Longrightarrow>
            R (snd ?r2) True (dispose ?c (s4\<lparr>deriveds := x\<rparr>)\<lparr>deriveds := y\<rparr>)"
          using trans [OF leave [of Derived "DerivedUpdate d" "snd ?r2", unfolded c] upd_deriveds]
            trans [OF _ upd_deriveds] by blast
        have fin': "\<And>s4 x y ev. R ?s3 True s4 \<Longrightarrow>
            R (snd ?r2) True (emit ev (dispose ?c (s4\<lparr>deriveds := x\<rparr>)\<lparr>deriveds := y\<rparr>))"
          using trans [OF fin do_emit] .
        show ?thesis
        proof (cases "exec n (Run (dcb (deriveds ?s3 d))) (emit (Compute d) ?s3)")
          case None
          with ex DerivedGet True Inr show ?thesis
            by (auto simp: Let_def split_beta split: sum.splits)
        next
          case (Some res)
          obtain rr s4 where res: "res = (rr, s4)" by (cases res)
          with Some have run: "exec n (Run (dcb (deriveds ?s3 d))) (emit (Compute d) ?s3) = Some (rr, s4)"
            by simp
          from trans [OF do_emit IH [OF run]] have 1: "R ?s3 (\<not> isl rr) s4" .
          show ?thesis
          proof (cases rr)
            case (Inl err)
            with ex DerivedGet True Inr run have "r = Inl err \<and> s' = s4"
              by (auto simp: Let_def split_beta split: sum.splits)
            moreover from 1 Inl have "R ?s3 False s4" by simp
            ultimately show ?thesis using trans [OF a2 leak] by simp
          next
            case (Inr v)
            let ?Y = "dispose (next_context s)
                        (s4\<lparr>deriveds := (deriveds s4)(d := deriveds s4 d\<lparr>dvalue := v\<rparr>)\<rparr>)
                      \<lparr>deriveds := (deriveds s4)
                          (d := deriveds s4 d\<lparr>dvalue := v, disposer := Unsubscribe (next_context s),
                                               isDirty := False\<rparr>)\<rparr>"
            from ex DerivedGet True \<open>fst ?r2 = Inr u\<close> run Inr
            have s': "\<not> isl r \<and> (s' = ?Y \<or> s' = emit (OnSetValue (OfDerived d) v True) ?Y)"
              by (auto simp: Let_def split_beta fst_new split: sum.splits if_splits)
            from 1 Inr have "R ?s3 True s4" by simp
            from fin [OF this] fin' [OF this] s' have "R (snd ?r2) True s'" by auto
            from trans [OF a2 this] s' show ?thesis by simp
          qed
        qed
      qed
    qed
  next
    case (SignalSet i v)
    show ?thesis
    proof (cases "strict_eq (svalue (signals s i)) v")
      case True
      with ex SignalSet show ?thesis
        by (auto simp: refl do_emit split: if_splits)
    next
      case False
      let ?r1 = "case v of Promise p \<Rightarrow> createPromise i p s | _ \<Rightarrow> (v, s)"
      have a1: "R s True (snd ?r1)"
        by (cases v) (simp_all add: refl do_create)
      let ?s3 = "set_hook i (set_svalue i (fst ?r1) (snd ?r1))"
      have a3: "R s True ?s3"
        using trans [OF trans [OF a1 do_store] do_hook] .
      have a4: "R s True (?s3\<lparr>microtasks := microtasks ?s3 @ [CheckPending i]\<rparr>)"
        using trans [OF a3 upd_microtasks] .
      from ex SignalSet False
      have "(\<not> isl r \<and> (s' = ?s3 \<or> s' = ?s3\<lparr>microtasks := microtasks ?s3 @ [CheckPending i]\<rparr>)) \<or>
            exec n (TrackerNotify (OfSignal i)) ?s3 = Some (r, s')"
        by (auto simp: Let_def split_beta split: if_splits)
      then show ?thesis
      proof
        assume "\<not> isl r \<and> (s' = ?s3 \<or> s' = ?s3\<lparr>microtasks := microtasks ?s3 @ [CheckPending i]\<rparr>)"
        with a3 a4 show ?thesis by auto
      next
        assume "exec n (TrackerNotify (OfSignal i)) ?s3 = Some (r, s')"
        from trans [OF a3 IH [OF this]] show ?thesis .
      qed
    qed
  next
    case (Run sc)
    show ?thesis
    proof (cases sc)
      case (Return v)
      with ex Run show ?thesis by (auto simp: refl)
    next
      case (Throw err)
      with ex Run show ?thesis by (auto simp: refl weaken)
    next
      case (GetSignal i k)
      have "R s True (snd (signal_get i s))" by (simp add: signal_get_def do_track)
      moreover from ex Run GetSignal
      have "exec n (Run (k (fst (signal_get i s)))) (snd (signal_get i s)) = Some (r, s')"
        by (simp add: split_beta)
      ultimately show ?thesis using trans IH by (metis (no_types))
    next
      case (SetSignal i v k)
      with ex Run
      have "\<exists>r1 s1. (exec n (SignalSet i v) s = Some (r1, s1)) \<and>
          ((isl r1 \<and> r = r1 \<and> s' = s1) \<or> (\<not> isl r1 \<and> exec n (Run k) s1 = Some (r, s')))"
        by (auto split: option.splits sum.splits prod.splits)
      then obtain r1 s1 where 1: "exec n (SignalSet i v) s = Some (r1, s1)"
        and 2: "(isl r1 \<and> r = r1 \<and> s' = s1) \<or> (\<not> isl r1 \<and> exec n (Run k) s1 = Some (r, s'))"
        by blast
      from seq [OF 1 2] show ?thesis .
    next
      case (GetDerived d k)
      with ex Run
      have "\<exists>r1 s1. (exec n (DerivedGet d) s = Some (r1, s1)) \<and>
          ((isl r1 \<and> r = r1 \<and> s' = s1) \<or> (\<exists>v. r1 = Inr v \<and> exec n (Run (k v)) s1 = Some (r, s')))"
        by (auto split: option.splits sum.splits prod.splits)
      then obtain r1 s1 where 1: "exec n (DerivedGet d) s = Some (r1, s1)"
        and 2: "(isl r1 \<and> r = r1 \<and> s' = s1) \<or> (\<exists>v. r1 = Inr v \<and> exec n (Run (k v)) s1 = Some (r, s'))"
        by blast
      from 2 obtain c2 where "(isl r1 \<and> r = r1 \<and> s' = s1) \<or> (\<not> isl r1 \<and> exec n c2 s1 = Some (r, s'))"
        by auto
      from seq [OF 1 this] show ?thesis .
    next
      case (Use p k)
      show ?thesis
      proof (cases "use_value s p")
        case (Inl err)
        with ex Run Use have "r = Inl err \<and> s' = s" by simp
        then show ?thesis by (simp add: refl weaken)
      next
        case (Inr v)
        with ex Run Use have "exec n (Run (k v)) s = Some (r, s')" by simp
        from IH [OF this] show ?thesis .
      qed
    qed
  qed
qed


lemma addContext_has:
  "set_has (contexts (trackers (addContext t c s) u)) x =
     (set_has (contexts (trackers s u)) x \<or> (u = t \<and> x = c))"
  by (auto simp: addContext_def set_has_add)

lemma removeContext_has:
  "set_has (contexts (trackers (removeContext t c s) u)) x \<Longrightarrow> set_has (contexts (trackers s u)) x"
  by (auto simp: removeContext_def set_has_delete split: if_splits)

lemma fold_addContext_has:
  "x \<noteq> c \<Longrightarrow>
   set_has (contexts (trackers (fold (\<lambda>t. addContext t c) ts s) u)) x =
   set_has (contexts (trackers s u)) x"
  by (induction ts arbitrary: s) (simp_all add: addContext_has)

lemma fold_removeContext_has:
  "set_has (contexts (trackers (fold (\<lambda>t. removeContext t c) ts s) u)) x \<Longrightarrow>
   set_has (contexts (trackers s u)) x"
  by (induction ts arbitrary: s) (auto dest: removeContext_has)

lemma subscribe_has:
  "set_has (contexts (trackers (subscribe c s) u)) x \<Longrightarrow> set_has (contexts (trackers s u)) x \<or> x = c"
  unfolding subscribe_def using fold_addContext_has [of x c] by blast

lemma unsubscribe_has:
  "set_has (contexts (trackers (unsubscribe c s) u)) x \<Longrightarrow> set_has (contexts (trackers s u)) x"
  unfolding unsubscribe_def by (rule fold_removeContext_has)

lemma call_disposer_has:
  "set_has (contexts (trackers (snd (call_disposer f s)) u)) x \<Longrightarrow> set_has (contexts (trackers s u)) x"
  by (cases f) (auto simp: call_disposer_def dest: unsubscribe_has)

lemma optional_call_has:
  "set_has (contexts (trackers (snd (optional_call f s)) u)) x \<Longrightarrow> set_has (contexts (trackers s u)) x"
  by (cases f) (auto simp: optional_call_def dest: call_disposer_has)

lemma dispose_has:
  "set_has (contexts (trackers (dispose c s) u)) x \<Longrightarrow> set_has (contexts (trackers s u)) x \<or> x = c"
  unfolding dispose_def using subscribe_has [of c "s\<lparr>stack := butlast (stack s)\<rparr>" u x] by simp

lemma grown_same:
  assumes "next_context s' = next_context s" "stack s' = stack s"
    "\<And>x. ctype (ctxs s' x) = ctype (ctxs s x)"
    "\<And>u x. set_has (contexts (trackers s' u)) x \<Longrightarrow> set_has (contexts (trackers s u)) x"
  shows "grown s True s'"
  using assms unfolding grown_def unsubscribed_def allocated_def by (simp, blast)

lemma track_get_ctype: "ctype (ctxs (track_get t s) x) = ctype (ctxs s x)"
  by (simp add: track_get_def registerGetter_def Let_def emit_def split: option.splits)

lemma set_hook_ctype: "ctype (ctxs (set_hook i s) x) = ctype (ctxs s x)"
  by (simp add: set_hook_def registerSetter_def Let_def emit_def split: option.splits)

lemma grown_trans: "grown s True t \<Longrightarrow> grown t b u \<Longrightarrow> grown s b u"
  unfolding grown_def by (auto simp: Ball_def) (meson le_trans less_le_trans)+

lemma grown_leave:
  assumes "grown (snd (new_ObserverContext ty u s)) True t"
  shows "grown s True (dispose (next_context s) t)"
proof -
  let ?c = "next_context s"
  from assms have n: "Suc ?c \<le> next_context t" and st: "stack t = stack s @ [?c]"
    and old: "\<forall>x < Suc ?c. ctype (ctxs t x) = ctype (ctxs (snd (new_ObserverContext ty u s)) x) \<and>
               (unsubscribed (snd (new_ObserverContext ty u s)) x \<longrightarrow> unsubscribed t x)"
    and al: "allocated (snd (new_ObserverContext ty u s)) \<longrightarrow> allocated t"
    by (auto simp: grown_def new_ObserverContext_def Let_def)
  have 1: "next_context s \<le> next_context (dispose ?c t)" using n by simp
  have 2: "stack (dispose ?c t) = stack s" using st by (simp add: dispose_def)
  have 3: "\<forall>x < ?c. ctype (ctxs (dispose ?c t) x) = ctype (ctxs s x) \<and>
             (unsubscribed s x \<longrightarrow> unsubscribed (dispose ?c t) x)"
  proof (intro allI impI conjI)
    fix x assume x: "x < ?c"
    with old show "ctype (ctxs (dispose ?c t) x) = ctype (ctxs s x)"
      by (simp add: new_ObserverContext_def Let_def)
    assume "unsubscribed s x"
    then have "unsubscribed (snd (new_ObserverContext ty u s)) x" by (simp add: unsubscribed_def)
    with old x have "unsubscribed t x" by simp
    with x show "unsubscribed (dispose ?c t) x"
      unfolding unsubscribed_def using dispose_has [of ?c t] by blast
  qed
  have 4: "allocated s \<longrightarrow> allocated (dispose ?c t)"
  proof
    assume "allocated s"
    then have "allocated (snd (new_ObserverContext ty u s))"
      by (auto simp: allocated_def new_ObserverContext_def Let_def less_Suc_eq)
    with al have "allocated t" by simp
    with n show "allocated (dispose ?c t)"
      unfolding allocated_def using dispose_has [of ?c t] by (auto simp: Suc_le_eq)
  qed
  from 1 2 3 4 show ?thesis by (simp add: grown_def)
qed

lemma grown_leak:
  assumes "grown (snd (new_ObserverContext ty u s)) False t"
  shows "grown s False t"
proof -
  let ?c = "next_context s"
  let ?s1 = "snd (new_ObserverContext ty u s)"
  from assms obtain rest where n: "Suc ?c \<le> next_context t"
    and st: "stack t = stack s @ ?c # rest" and rest: "\<forall>x \<in> set rest. Suc ?c \<le> x"
    and old: "\<forall>x < Suc ?c. ctype (ctxs t x) = ctype (ctxs ?s1 x) \<and>
               (unsubscribed ?s1 x \<longrightarrow> unsubscribed t x)"
    and al: "allocated ?s1 \<longrightarrow> allocated t"
    by (auto simp: grown_def new_ObserverContext_def Let_def)
  have 1: "next_context s \<le> next_context t" using n by simp
  have 2: "\<exists>r. stack t = stack s @ r \<and> (\<forall>x \<in> set r. ?c \<le> x) \<and> (False \<longrightarrow> r = [])"
    using st rest by (intro exI [of _ "?c # rest"]) auto
  have 3: "\<forall>x < ?c. ctype (ctxs t x) = ctype (ctxs s x) \<and> (unsubscribed s x \<longrightarrow> unsubscribed t x)"
  proof (intro allI impI conjI)
    fix x assume x: "x < ?c"
    with old show "ctype (ctxs t x) = ctype (ctxs s x)"
      by (simp add: new_ObserverContext_def Let_def)
    assume "unsubscribed s x"
    then have "unsubscribed ?s1 x" by (simp add: unsubscribed_def)
    with old x show "unsubscribed t x" by simp
  qed
  have 4: "allocated s \<longrightarrow> allocated t"
  proof
    assume "allocated s"
    then have "allocated ?s1"
      by (auto simp: allocated_def new_ObserverContext_def Let_def less_Suc_eq)
    with al show "allocated t" by simp
  qed
  from 1 2 3 4 show ?thesis unfolding grown_def by blast
qed

lemma exec_grown: "exec n c s = Some (r, s') \<Longrightarrow> grown s (\<not> isl r) s'"
proof (rule exec_bracket [where R = grown])
  fix s t u :: state and b
  show "grown s True t \<Longrightarrow> grown t b u \<Longrightarrow> grown s b u" by (rule grown_trans)
next
  fix s t :: state and ty u
  show "grown (snd (new_ObserverContext ty u s)) True t \<Longrightarrow> grown s True (dispose (next_context s) t)"
    by (rule grown_leave)
next
  fix s t :: state and ty u
  show "grown (snd (new_ObserverContext ty u s)) False t \<Longrightarrow> grown s False t"
    by (rule grown_leak)
next
  fix s t :: state
  show "grown s True t \<Longrightarrow> grown s False t" by (auto simp: grown_def)
next
  fix s :: state and f
  show "grown s True (snd (call_disposer f s))"
    by (rule grown_same) (simp_all add: call_disposer_has)
next
  fix s :: state and t
  show "grown s True (track_get t s)"
    by (rule grown_same) (simp_all add: track_get_ctype)
next
  fix s :: state and i
  show "grown s True (set_hook i s)"
    by (rule grown_same) (simp_all add: set_hook_ctype)
qed (rule grown_same; simp)+


text \<open>
  C10, as stated, fails in two ways. The derived value 0 reads the derived value 1,
  whose callback throws: the exception leaves both getters, the contexts 0 and 1 of the
  two runs stay on the stack, and the context of the run of derived value 0 is not the
  top of the stack; the read of signal 0 that follows is registered with context 1, not
  with context 0. And with the \<open>onSetValue\<close> hook installed, a callback that has written
  signal 0 before it throws leaves a context that holds the signal as a write
  dependency: it is the top of the stack, and the read of signal 0 that follows is not
  registered with it.
\<close>

theorem derived_throw_counterexample:
  "leaked 0 (derived_get 5 0 nested_leak) =
     Some (Inl (Str ''boom''), [0, 1], [[Some (OfDerived 1)], [Some (OfSignal 0)]]) \<and>
   leaked 0 (derived_get 5 0 setter_leak) = Some (Inl (Str ''boom''), [0], [[]])"
  by (simp add: leaked_def nested_leak_def setter_leak_def engine_defs eval_nat_numeral)

lemma entered_frame:
  "next_context (entered d s) = Suc (next_context s)"
  "stack (entered d s) = stack s @ [next_context s]"
  "ctype (ctxs (entered d s) (next_context s)) = Derived"
  "deriveds (entered d s) = deriveds s"
  by (simp_all add: entered_def new_ObserverContext_def Let_def fresh_context_def)

lemma entered_has:
  "set_has (contexts (trackers (entered d s) u)) x \<Longrightarrow> set_has (contexts (trackers s u)) x"
  by (simp add: entered_def) (drule optional_call_has, simp)

lemma derived_get_throws_iff:
  assumes "isDirty (deriveds s d)"
    and "fst (optional_call (disposer (deriveds s d)) (track_get (OfDerived d) (emit (ReadDerived d) s))) = Inr u"
  shows "derived_get (Suc n) d s = Some (Inl err, s') \<longleftrightarrow>
         run n (dcb (deriveds s d)) (entered d s) = Some (Inl err, s')"
  using assms
  by (auto simp: derived_get_def run_def entered_def Let_def split_beta
      split: sum.splits option.splits if_splits)

lemma leak_after:
  assumes "run n cb (entered d s) = Some (Inl err, s')"
  shows "(\<exists>rest. stack s' = stack s @ next_context s # rest \<and> (\<forall>x \<in> set rest. next_context s < x)) \<and>
         next_context s < next_context s' \<and>
         ctype (ctxs s' (next_context s)) = Derived \<and>
         (allocated s \<longrightarrow> unsubscribed s' (next_context s) \<and> allocated s')"
proof -
  let ?c = "next_context s"
  from assms have "grown (entered d s) False s'"
    using exec_grown [of n "Run cb" "entered d s" "Inl err" s'] by (simp add: run_def)
  then obtain rest where n: "Suc ?c \<le> next_context s'"
    and st: "stack s' = stack s @ ?c # rest" and rest: "\<forall>x \<in> set rest. Suc ?c \<le> x"
    and old: "\<forall>x < Suc ?c. ctype (ctxs s' x) = ctype (ctxs (entered d s) x) \<and>
               (unsubscribed (entered d s) x \<longrightarrow> unsubscribed s' x)"
    and al: "allocated (entered d s) \<longrightarrow> allocated s'"
    by (auto simp: grown_def entered_frame)
  have 1: "\<exists>r. stack s' = stack s @ ?c # r \<and> (\<forall>x \<in> set r. ?c < x)"
    using st rest by (auto simp: Suc_le_eq)
  have 2: "ctype (ctxs s' ?c) = Derived" using old by (simp add: entered_frame)
  have 3: "allocated s \<longrightarrow> unsubscribed s' ?c \<and> allocated s'"
  proof
    assume a: "allocated s"
    then have "unsubscribed s ?c" by (auto simp: allocated_def unsubscribed_def)
    then have "unsubscribed (entered d s) ?c"
      unfolding unsubscribed_def using entered_has by blast
    with old have u: "unsubscribed s' ?c" by simp
    from a have "allocated (entered d s)"
      unfolding allocated_def using entered_has [of d s] by (auto simp: entered_frame less_Suc_eq)
    with al u show "unsubscribed s' ?c \<and> allocated s'" by simp
  qed
  from 1 2 3 n show ?thesis by (simp add: Suc_le_eq)
qed

lemma track_get_registers:
  assumes "current t = Some c" and "ctype (ctxs t c) = Derived"
  shows "getters (ctxs (track_get tr t) c) =
           (if set_has (setters (ctxs t c)) tr then getters (ctxs t c)
            else set_add (getters (ctxs t c)) tr) \<and>
         setters (ctxs (track_get tr t) c) = setters (ctxs t c) \<and>
         stack (track_get tr t) = stack t"
  using assms
  by (simp add: track_get_def isResolvingContextFromComponent_def Let_def emit_def registerGetter_def)

lemma exec_keeps_read:
  "exec n k s = Some (r, s') \<Longrightarrow>
   next_context s \<le> next_context s' \<and>
   (c < next_context s \<and> set_has (getters (ctxs s c)) (OfDerived d) \<longrightarrow>
      set_has (getters (ctxs s' c)) (OfDerived d))"
proof (rule exec_rel [where R = "\<lambda>s s'. next_context s \<le> next_context s' \<and>
   (c < next_context s \<and> set_has (getters (ctxs s c)) (OfDerived d) \<longrightarrow>
      set_has (getters (ctxs s' c)) (OfDerived d))"])
  fix s :: state and t
  show "next_context s \<le> next_context (track_get t s) \<and>
     (c < next_context s \<and> set_has (getters (ctxs s c)) (OfDerived d) \<longrightarrow>
      set_has (getters (ctxs (track_get t s) c)) (OfDerived d))"
    by (auto simp: track_get_def Let_def emit_def registerGetter_def set_has_add split: option.splits)
next
  fix s :: state and i
  show "next_context s \<le> next_context (set_hook i s) \<and>
     (c < next_context s \<and> set_has (getters (ctxs s c)) (OfDerived d) \<longrightarrow>
      set_has (getters (ctxs (set_hook i s) c)) (OfDerived d))"
    by (auto simp: set_hook_def Let_def emit_def registerSetter_def set_has_add set_has_delete
        split: option.splits)
next
  fix s :: state and ty u
  show "next_context s \<le> next_context (snd (new_ObserverContext ty u s)) \<and>
     (c < next_context s \<and> set_has (getters (ctxs s c)) (OfDerived d) \<longrightarrow>
      set_has (getters (ctxs (snd (new_ObserverContext ty u s)) c)) (OfDerived d))"
    by (auto simp: new_ObserverContext_def Let_def)
qed auto


lemma derived_get_registers:
  assumes run: "derived_get n d t = Some (r, t')"
    and cur: "current t = Some c" "ctype (ctxs t c) = Derived"
    and old: "c < next_context t"
    and nw: "\<not> set_has (setters (ctxs t c)) (OfDerived d)"
  shows "set_has (getters (ctxs t' c)) (OfDerived d)"
proof (cases n)
  case 0
  with run show ?thesis by (simp add: derived_get_def)
next
  case (Suc m)
  let ?t1 = "track_get (OfDerived d) (emit (ReadDerived d) t)"
  let ?t2 = "snd (optional_call (disposer (deriveds t d)) ?t1)"
  let ?s3 = "snd (new_ObserverContext Derived (DerivedUpdate d) ?t2)"
  have "current (emit (ReadDerived d) t) = Some c" "ctype (ctxs (emit (ReadDerived d) t) c) = Derived"
    "\<not> set_has (setters (ctxs (emit (ReadDerived d) t) c)) (OfDerived d)"
    using cur nw by (simp_all add: current_def split: if_splits)
  from track_get_registers [OF this(1,2), of "OfDerived d"] this(3)
  have 1: "set_has (getters (ctxs ?t1 c)) (OfDerived d)"
    by (simp add: set_has_add)
  then have 2: "set_has (getters (ctxs ?t2 c)) (OfDerived d)" by simp
  with old have 3: "c < next_context (emit (Compute d) ?s3) \<and>
      set_has (getters (ctxs (emit (Compute d) ?s3) c)) (OfDerived d)"
    by (simp add: new_ObserverContext_def Let_def)
  from run Suc
  have "ctxs t' = ctxs ?t1 \<or> ctxs t' = ctxs ?t2 \<or>
        (\<exists>rr s4. exec m (Run (dcb (deriveds t d))) (emit (Compute d) ?s3) = Some (rr, s4) \<and>
                  ctxs t' = ctxs s4)"
    by (auto simp: derived_get_def Let_def split_beta split: sum.splits option.splits if_splits)
  then show ?thesis
  proof (elim disjE exE conjE)
    assume "ctxs t' = ctxs ?t1"
    with 1 show ?thesis by simp
  next
    assume "ctxs t' = ctxs ?t2"
    with 2 show ?thesis by simp
  next
    fix rr s4
    assume "exec m (Run (dcb (deriveds t d))) (emit (Compute d) ?s3) = Some (rr, s4)"
      and "ctxs t' = ctxs s4"
    with exec_keeps_read [of m "Run (dcb (deriveds t d))" "emit (Compute d) ?s3" rr s4 c d] 3
    show ?thesis by simp
  qed
qed

lemma exec_allocated: "exec n c s = Some (r, s') \<Longrightarrow> allocated s \<longrightarrow> allocated s'"
  using exec_grown [of n c s r s'] by (simp add: grown_def)

lemma run_job_allocated:
  assumes "run_job n j s = Some s'" and "allocated s"
  shows "allocated s'"
proof (cases j)
  case (OnFulfilled i a' w v)
  have s2: "allocated (store_fulfilled i v s)" using assms(2) by (simp add: allocated_def)
  show ?thesis
  proof (cases "aborted s a'")
    case True
    with assms OnFulfilled show ?thesis by (auto simp: run_job_def allocated_def)
  next
    case False
    with assms(1) OnFulfilled obtain r s3 where
      run: "exec n (TrackerNotify (OfSignal i)) (store_fulfilled i v s) = Some (r, s3)"
      and fin: "\<exists>x. s' = s3\<lparr>microtasks := x\<rparr>"
      by (auto simp: run_job_def tracker_notify_def split: option.splits sum.splits prod.splits)
    from exec_allocated [OF run] s2 fin show ?thesis
      by (auto simp: allocated_def)
  qed
next
  case (PassRejection i a' w r)
  with assms show ?thesis by (auto simp: run_job_def allocated_def)
next
  case (OnRejected i a' w v)
  have s2: "allocated (store_rejected i v s)" using assms(2) by (simp add: allocated_def)
  show ?thesis
  proof (cases "aborted s a'")
    case True
    with assms OnRejected show ?thesis by (auto simp: run_job_def allocated_def)
  next
    case False
    with assms(1) OnRejected obtain r s3 where
      run: "exec n (TrackerNotify (OfSignal i)) (store_rejected i v s) = Some (r, s3)"
      and fin: "(\<exists>x. s' = s3\<lparr>microtasks := x\<rparr>) \<or> (\<exists>e. s' = reject_promise w e s3)"
      by (auto simp: run_job_def tracker_notify_def split: option.splits sum.splits prod.splits)
    from exec_allocated [OF run] s2 fin show ?thesis
      by (auto simp: allocated_def)
  qed
next
  case (PassFulfilment w x)
  with assms show ?thesis by (auto simp: run_job_def allocated_def)
next
  case (AdoptRejected w r)
  with assms show ?thesis by (auto simp: run_job_def allocated_def)
next
  case (RejectWrapper w r)
  with assms show ?thesis by (auto simp: run_job_def allocated_def)
next
  case (CheckPending i)
  show ?thesis
  proof (cases "is_pending s (svalue (signals s i))")
    case False
    with assms CheckPending show ?thesis by (simp add: run_job_def)
  next
    case True
    with assms(1) CheckPending obtain r where
      run: "exec n (TrackerNotify (OfSignal i)) s = Some (r, s')"
      by (auto simp: run_job_def tracker_notify_def split: option.splits prod.splits)
    from exec_allocated [OF run] assms(2) show ?thesis by blast
  qed
qed

lemma run_microtasks_allocated:
  "run_microtasks n s = Some s' \<Longrightarrow> allocated s \<Longrightarrow> allocated s'"
proof (induction n arbitrary: s)
  case 0
  then show ?case by simp
next
  case (Suc n)
  show ?case
  proof (cases "microtasks s")
    case Nil
    with Suc.prems show ?thesis by simp
  next
    case (Cons j js)
    with Suc.prems(1) obtain s1 where job: "run_job n j (s\<lparr>microtasks := js\<rparr>) = Some s1"
      and rest: "run_microtasks n s1 = Some s'"
      by (auto split: option.splits)
    have "allocated (s\<lparr>microtasks := js\<rparr>)" using Suc.prems(2) by (simp add: allocated_def)
    from Suc.IH [OF rest run_job_allocated [OF job this]] show ?thesis .
  qed
qed

lemma allocated_init: "allocated init"
  by (simp add: allocated_def init_def set_has_def)

lemma allocated_constructors:
  "allocated s \<Longrightarrow>
   allocated (signal i v s) \<and> allocated (derived d cb s) \<and> allocated (snd (observer k s))"
  by (cases v)
    (auto simp: allocated_def signal_def derived_def observer_def new_ObserverContext_def Let_def
      split_beta set_has_def less_Suc_eq)


text \<open>
  C10. When the callback of a dirty derived value throws, the getter throws the same
  value and leaves the state as the callback left it. The context created for the run
  is then still on the stack, above everything that was there and below contexts that
  were created later (the contexts of runs nested in the callback, leaked in the same
  way); it is a \<open>derived\<close> context, and it is a dependent of no tracker, its reads were
  never turned into subscriptions. When nothing is above it, it is
  \<open>ObserverContext.current\<close>. A context that is current and of type \<open>derived\<close>
  registers the tracker of every read that follows, of a signal or of a derived value,
  unless it holds that tracker as a write dependency. Every dependent of a tracker is a
  context that has been created, in every state the module reaches (initially, and
  after every construction, disposal of a context that exists, call and run of the
  microtask queue). The wrapper that
  \<open>observe\<close> of the root package returns, when its callback throws, pops its context
  before it rethrows.
\<close>

theorem derived_throw_leaks:
  "(isDirty (deriveds s d) \<and>
    fst (optional_call (disposer (deriveds s d)) (track_get (OfDerived d) (emit (ReadDerived d) s))) = Inr u \<longrightarrow>
      (derived_get (Suc n) d s = Some (Inl err, s') \<longleftrightarrow>
       run n (dcb (deriveds s d)) (entered d s) = Some (Inl err, s'))) \<and>
   (isDirty (deriveds s d) \<and>
    fst (optional_call (disposer (deriveds s d)) (track_get (OfDerived d) (emit (ReadDerived d) s))) = Inr u \<and>
    derived_get (Suc n) d s = Some (Inl err, s') \<longrightarrow>
      (\<exists>rest. stack s' = stack s @ next_context s # rest \<and> (\<forall>x \<in> set rest. next_context s < x)) \<and>
      next_context s < next_context s' \<and>
      ctype (ctxs s' (next_context s)) = Derived \<and>
      (allocated s \<longrightarrow> unsubscribed s' (next_context s) \<and> allocated s')) \<and>
   (stack t = stk @ [c] \<longrightarrow> current t = Some c) \<and>
   (current t = Some c \<and> ctype (ctxs t c) = Derived \<longrightarrow>
      getters (ctxs (track_get tr t) c) =
        (if set_has (setters (ctxs t c)) tr then getters (ctxs t c)
         else set_add (getters (ctxs t c)) tr) \<and>
      signal_get i t = (svalue (signals t i), track_get (OfSignal i) t) \<and>
      (\<not> set_has (setters (ctxs t c)) (OfSignal i) \<longrightarrow>
         set_has (getters (ctxs (snd (signal_get i t)) c)) (OfSignal i) \<and>
         stack (snd (signal_get i t)) = stack t) \<and>
      (c < next_context t \<and> \<not> set_has (setters (ctxs t c)) (OfDerived e) \<and>
       derived_get m e t = Some (r, t') \<longrightarrow>
         set_has (getters (ctxs t' c)) (OfDerived e))) \<and>
   stack (entered d s) = stack s @ [next_context s] \<and>
   current (entered d s) = Some (next_context s) \<and>
   ctype (ctxs (entered d s) (next_context s)) = Derived \<and>
   trackers (entered d s) =
     trackers (snd (optional_call (disposer (deriveds s d)) (track_get (OfDerived d) (emit (ReadDerived d) s)))) \<and>
   allocated init \<and>
   (allocated s \<longrightarrow>
      allocated (signal i v s) \<and> allocated (derived d cb s) \<and> allocated (snd (observer k s))) \<and>
   (allocated s \<and> exec n call s = Some (r, s') \<longrightarrow> allocated s') \<and>
   (allocated s \<and> c < next_context s \<longrightarrow> allocated (dispose c s)) \<and>
   (allocated s \<and> run_microtasks n s = Some s' \<longrightarrow> allocated s') \<and>
   (app_run n acb (app_emit (UseSyncExternalStore (app_next_context a)) (snd (app_new_ObserverContext a)))
      = Some (Inl err, a3) \<longrightarrow>
      observe (Suc n) acb a = Some (Inl err, app_dispose a3)) \<and>
   (\<exists>a'. observe (Suc (Suc n)) (AppThrow err) a = Some (Inl err, a') \<and> app_stack a' = app_stack a)"
proof -
  let ?ok = "isDirty (deriveds s d) \<and>
    fst (optional_call (disposer (deriveds s d)) (track_get (OfDerived d) (emit (ReadDerived d) s))) = Inr u"
  have same: "?ok \<longrightarrow>
      (derived_get (Suc n) d s = Some (Inl err, s') \<longleftrightarrow>
       run n (dcb (deriveds s d)) (entered d s) = Some (Inl err, s'))"
    using derived_get_throws_iff [of s d u n err s'] by blast
  have leak: "isDirty (deriveds s d) \<and>
    fst (optional_call (disposer (deriveds s d)) (track_get (OfDerived d) (emit (ReadDerived d) s))) = Inr u \<and>
    derived_get (Suc n) d s = Some (Inl err, s') \<longrightarrow>
      (\<exists>rest. stack s' = stack s @ next_context s # rest \<and> (\<forall>x \<in> set rest. next_context s < x)) \<and>
      next_context s < next_context s' \<and>
      ctype (ctxs s' (next_context s)) = Derived \<and>
      (allocated s \<longrightarrow> unsubscribed s' (next_context s) \<and> allocated s')"
    using same leak_after [of n "dcb (deriveds s d)" d s err s'] by blast
  have top: "stack t = stk @ [c] \<longrightarrow> current t = Some c"
    by (simp add: current_def)
  have absorb: "current t = Some c \<and> ctype (ctxs t c) = Derived \<longrightarrow>
      getters (ctxs (track_get tr t) c) =
        (if set_has (setters (ctxs t c)) tr then getters (ctxs t c)
         else set_add (getters (ctxs t c)) tr) \<and>
      signal_get i t = (svalue (signals t i), track_get (OfSignal i) t) \<and>
      (\<not> set_has (setters (ctxs t c)) (OfSignal i) \<longrightarrow>
         set_has (getters (ctxs (snd (signal_get i t)) c)) (OfSignal i) \<and>
         stack (snd (signal_get i t)) = stack t) \<and>
      (c < next_context t \<and> \<not> set_has (setters (ctxs t c)) (OfDerived e) \<and>
       derived_get m e t = Some (r, t') \<longrightarrow>
         set_has (getters (ctxs t' c)) (OfDerived e))"
    using track_get_registers [of t c tr] signal_get_registers [of t c i]
      derived_get_registers [of m e t r t' c]
    by (simp add: signal_get_def)
  have ent: "stack (entered d s) = stack s @ [next_context s] \<and>
      current (entered d s) = Some (next_context s) \<and>
      ctype (ctxs (entered d s) (next_context s)) = Derived"
    using entered_stack [of d s] by blast
  have trk: "trackers (entered d s) =
     trackers (snd (optional_call (disposer (deriveds s d)) (track_get (OfDerived d) (emit (ReadDerived d) s))))"
    by (simp add: entered_def)
  have cons: "allocated s \<longrightarrow>
      allocated (signal i v s) \<and> allocated (derived d cb s) \<and> allocated (snd (observer k s))"
    using allocated_constructors [of s i v d cb k] by blast
  have ex: "allocated s \<and> exec n call s = Some (r, s') \<longrightarrow> allocated s'"
    using exec_grown [of n call s r s'] by (auto simp: grown_def)
  have disp: "allocated s \<and> c < next_context s \<longrightarrow> allocated (dispose c s)"
    unfolding allocated_def using dispose_has [of c s] by auto
  have mt: "allocated s \<and> run_microtasks n s = Some s' \<longrightarrow> allocated s'"
    using run_microtasks_allocated [of n s s'] by blast
  have obs: "app_run n acb (app_emit (UseSyncExternalStore (app_next_context a)) (snd (app_new_ObserverContext a)))
      = Some (Inl err, a3) \<longrightarrow>
      observe (Suc n) acb a = Some (Inl err, app_dispose a3)"
    using observe_throws [of n acb a err a3] by blast
  have obs2: "\<exists>a'. observe (Suc (Suc n)) (AppThrow err) a = Some (Inl err, a') \<and> app_stack a' = app_stack a"
    by (simp add: observe_def app_new_ObserverContext_def Let_def app_emit_def app_dispose_def)
  show ?thesis
    by (intro conjI same leak top absorb ent [THEN conjunct1] ent [THEN conjunct2, THEN conjunct1]
        ent [THEN conjunct2, THEN conjunct2] trk allocated_init cons ex disp mt obs obs2)
qed


text \<open>
  The callback of derived value 0 reads signal 0 and throws. The read of the derived
  value ends with the context 0 of the run on top of the stack, holding the read of
  signal 0 and subscribed nowhere. A read of signal 1 made afterwards, outside every
  computation, is registered with it, and so is a second read of the derived value.
\<close>

theorem derived_throw_leaks_witness:
  "derived_get 3 0 throwing = Some (Inl (Str ''boom''), snd (signal_get 0 (entered 0 throwing))) \<and>
   stack (snd (signal_get 0 (entered 0 throwing))) = [0] \<and>
   current (snd (signal_get 0 (entered 0 throwing))) = Some 0 \<and>
   unsubscribed (snd (signal_get 0 (entered 0 throwing))) 0 \<and>
   getters (ctxs (snd (signal_get 0 (entered 0 throwing))) 0) = [Some (OfSignal 0)] \<and>
   getters (ctxs (snd (signal_get 1 (snd (signal_get 0 (entered 0 throwing))))) 0) =
     [Some (OfSignal 0), Some (OfSignal 1)] \<and>
   (\<exists>t'. derived_get 3 0 (snd (signal_get 0 (entered 0 throwing))) = Some (Inl (Str ''boom''), t') \<and>
         set_has (getters (ctxs t' 0)) (OfDerived 0))"
proof -
  let ?s4 = "snd (signal_get 0 (entered 0 throwing))"
  have pre: "isDirty (deriveds throwing 0) \<and>
    fst (optional_call (disposer (deriveds throwing 0))
           (track_get (OfDerived 0) (emit (ReadDerived 0) throwing))) = Inr Undefined"
    by (simp add: throwing_facts optional_call_def)
  have ran: "run (Suc (Suc 0)) (dcb (deriveds throwing 0)) (entered 0 throwing) = Some (Inl (Str ''boom''), ?s4)"
    by (simp add: throwing_facts run_def split_beta)
  have "derived_get (Suc (Suc (Suc 0))) 0 throwing = Some (Inl (Str ''boom''), ?s4) \<longleftrightarrow>
        run (Suc (Suc 0)) (dcb (deriveds throwing 0)) (entered 0 throwing) = Some (Inl (Str ''boom''), ?s4)"
    using derived_throw_leaks [where s = throwing and d = 0 and u = Undefined and n = "Suc (Suc 0)"
        and err = "Str ''boom''" and s' = ?s4, THEN conjunct1] pre
    by (rule mp)
  with ran have thrown: "derived_get (Suc (Suc (Suc 0))) 0 throwing = Some (Inl (Str ''boom''), ?s4)"
    by simp
  have a0: "allocated init"
    by (rule derived_throw_leaks [THEN conjunct2, THEN conjunct2, THEN conjunct2, THEN conjunct2, THEN conjunct2, THEN conjunct2, THEN conjunct2, THEN conjunct2, THEN conjunct1])
  have a1: "allocated (signal 0 (Num 0) init)"
    using a0 derived_throw_leaks [where s = init and i = 0 and v = "Num 0", THEN conjunct2, THEN conjunct2, THEN conjunct2, THEN conjunct2, THEN conjunct2, THEN conjunct2, THEN conjunct2, THEN conjunct2, THEN conjunct2, THEN conjunct1]
    by blast
  have a2: "allocated (signal 1 (Num 1) (signal 0 (Num 0) init))"
    using a1 derived_throw_leaks [where s = "signal 0 (Num 0) init" and i = 1 and v = "Num 1", THEN conjunct2, THEN conjunct2, THEN conjunct2, THEN conjunct2, THEN conjunct2, THEN conjunct2, THEN conjunct2, THEN conjunct2, THEN conjunct2, THEN conjunct1]
    by blast
  have a3: "allocated throwing"
    unfolding throwing_def
    using a2 derived_throw_leaks [where s = "signal 1 (Num 1) (signal 0 (Num 0) init)" and d = 0
        and cb = "GetSignal 0 (\<lambda>v. Throw (Str ''boom''))", THEN conjunct2, THEN conjunct2, THEN conjunct2, THEN conjunct2, THEN conjunct2, THEN conjunct2, THEN conjunct2, THEN conjunct2, THEN conjunct2, THEN conjunct1]
    by blast
  have "(\<exists>rest. stack ?s4 = stack throwing @ next_context throwing # rest \<and>
                (\<forall>x \<in> set rest. next_context throwing < x)) \<and>
        next_context throwing < next_context ?s4 \<and>
        ctype (ctxs ?s4 (next_context throwing)) = Derived \<and>
        (allocated throwing \<longrightarrow> unsubscribed ?s4 (next_context throwing) \<and> allocated ?s4)"
    using derived_throw_leaks [where s = throwing and d = 0 and u = Undefined and n = "Suc (Suc 0)"
        and err = "Str ''boom''" and s' = ?s4, THEN conjunct2, THEN conjunct1] pre thrown
    by blast
  with a3 have leak: "unsubscribed ?s4 0 \<and> ctype (ctxs ?s4 0) = Derived \<and> 0 < next_context ?s4"
    by (simp add: throwing_facts)
  have st: "stack ?s4 = [] @ [0]"
    by (simp add: entered_def throwing_def engine_defs)
  then have cur: "current ?s4 = Some 0"
    using derived_throw_leaks [where t = ?s4 and stk = "[]" and c = 0,
        THEN conjunct2, THEN conjunct2, THEN conjunct1]
    by blast
  have "\<exists>t'. derived_get 3 0 ?s4 = Some (Inl (Str ''boom''), t')"
    by (simp add: entered_def throwing_def engine_defs eval_nat_numeral)
  then obtain t' where again: "derived_get 3 0 ?s4 = Some (Inl (Str ''boom''), t')" by blast
  have nw: "\<not> set_has (setters (ctxs ?s4 0)) (OfDerived 0)"
    by (simp add: entered_def throwing_def engine_defs)
  have "set_has (getters (ctxs t' 0)) (OfDerived 0)"
    using derived_throw_leaks [where t = ?s4 and c = 0 and e = 0 and m = 3 and r = "Inl (Str ''boom'')"
        and t' = t', THEN conjunct2, THEN conjunct2, THEN conjunct2, THEN conjunct1]
      cur leak nw again
    by blast
  with again have absorbed: "\<exists>t'. derived_get 3 0 ?s4 = Some (Inl (Str ''boom''), t') \<and>
         set_has (getters (ctxs t' 0)) (OfDerived 0)"
    by blast
  have rest: "getters (ctxs ?s4 0) = [Some (OfSignal 0)] \<and>
     getters (ctxs (snd (signal_get 1 ?s4)) 0) = [Some (OfSignal 0), Some (OfSignal 1)]"
    by (simp add: entered_def throwing_def engine_defs)
  from thrown have "derived_get 3 0 throwing = Some (Inl (Str ''boom''), ?s4)"
    by (simp add: eval_nat_numeral)
  with st cur leak absorbed rest show ?thesis by simp
qed

section \<open>Derived values are computed lazily\<close>

lemma lazy_Nil: "lazy []"
  by (simp add: lazy_def)

lemma lazy_append: "lazy t \<Longrightarrow> lazy u \<Longrightarrow> lazy (t @ u)"
  by (auto simp: lazy_def intro: add_mono)

lemma lazy_single: "\<forall>d. e \<noteq> Compute d \<Longrightarrow> lazy [e]"
  by (auto simp: lazy_def)

lemma lazy_read_compute: "lazy t \<Longrightarrow> lazy (ReadDerived d # t @ [Compute d])"
  by (auto simp: lazy_def le_SucI)

lemma track_get_trace:
  "trace (track_get t s) = trace s \<or> (\<exists>c. trace (track_get t s) = trace s @ [OnGetValue c t])"
  by (auto simp: track_get_def Let_def emit_def split: option.splits)

lemma set_hook_trace:
  "trace (set_hook i s) = trace s \<or> (\<exists>v. trace (set_hook i s) = trace s @ [OnSetValue (OfSignal i) v False])"
  by (auto simp: set_hook_def Let_def emit_def split: option.splits)

lemma exec_lazy:
  "exec n c s = Some (r, s') \<Longrightarrow> \<exists>t. trace s' = trace s @ t \<and> lazy t"
proof (rule exec_rel [where R = "\<lambda>s s'. \<exists>t. trace s' = trace s @ t \<and> lazy t"])
  fix s :: state
  show "\<exists>t. trace s = trace s @ t \<and> lazy t" by (simp add: lazy_Nil)
next
  fix s t u :: state
  assume "\<exists>x. trace t = trace s @ x \<and> lazy x" and "\<exists>y. trace u = trace t @ y \<and> lazy y"
  then obtain x y where "trace t = trace s @ x" "lazy x" "trace u = trace t @ y" "lazy y" by blast
  then have "trace u = trace s @ (x @ y) \<and> lazy (x @ y)" by (simp add: lazy_append)
  then show "\<exists>t. trace u = trace s @ t \<and> lazy t" by blast
next
  fix s :: state and e
  assume "\<forall>d. e \<noteq> Compute d"
  then have "trace (emit e s) = trace s @ [e] \<and> lazy [e]" by (simp add: emit_def lazy_single)
  then show "\<exists>t. trace (emit e s) = trace s @ t \<and> lazy t" by blast
next
  fix s s' :: state and d
  assume "\<exists>t. trace s' = trace (emit (ReadDerived d) s) @ t \<and> lazy t"
  then obtain t where "trace s' = trace s @ [ReadDerived d] @ t" "lazy t" by (auto simp: emit_def)
  then have "trace (emit (Compute d) s') = trace s @ (ReadDerived d # t @ [Compute d]) \<and>
             lazy (ReadDerived d # t @ [Compute d])"
    by (simp add: emit_def lazy_read_compute)
  then show "\<exists>t. trace (emit (Compute d) s') = trace s @ t \<and> lazy t" by blast
next
  fix s :: state and t
  from track_get_trace [of t s]
  show "\<exists>x. trace (track_get t s) = trace s @ x \<and> lazy x"
    by (auto simp: lazy_Nil lazy_single)
next
  fix s :: state and i
  from set_hook_trace [of i s]
  show "\<exists>x. trace (set_hook i s) = trace s @ x \<and> lazy x"
    by (auto simp: lazy_Nil lazy_single)
qed (simp_all add: lazy_Nil)

section \<open>Induction over the calls of the root package\<close>

text \<open>
  The same principle for \<open>src/Signal.ts\<close>. Here the callback of a derived value is also
  entered from a notification, when the derived value has a listener (premise
  \<open>do_eager\<close>).
\<close>

lemma app_exec_rel:
  assumes refl: "\<And>s. R s s"
    and trans: "\<And>s t u. R s t \<Longrightarrow> R t u \<Longrightarrow> R s u"
    and snap: "\<And>s c. R s (replace_snapshot c s)"
    and dirty: "\<And>s d b. R s (set_der_isDirty d b s)"
    and cache: "\<And>s d v. R s (set_der_value d v s)"
    and keep: "\<And>s d f. R s (set_der_disposer d f s)"
    and store: "\<And>s i v. R s (set_app_value i v s)"
    and do_emit: "\<And>s e. (\<forall>d. e \<noteq> AppCompute d) \<Longrightarrow> R s (app_emit e s)"
    and do_compute: "\<And>s s' d. R (app_emit (AppReadDerive d) s) s' \<Longrightarrow> R s (app_emit (AppCompute d) s')"
    and do_eager: "\<And>s s' d. has_listeners (der_listeners (app_derives s' d)) \<Longrightarrow> R s s' \<Longrightarrow>
                     R s (app_emit (AppCompute d) s')"
    and do_call: "\<And>s f. R s (snd (app_call_disposer f s))"
    and do_new: "\<And>s. R s (snd (app_new_ObserverContext s))"
    and do_dispose: "\<And>s. R s (app_dispose s)"
    and do_subscribe: "\<And>s c u. R s (app_subscribe c u s)"
    and do_track: "\<And>s t. R s (app_track_get t s)"
  shows "app_exec n c s = Some (r, s') \<Longrightarrow> R s s'"
proof (induction n arbitrary: c s r s')
  case 0
  then show ?case by simp
next
  case (Suc n)
  note IH = Suc.IH and ex = Suc.prems
  have do_opt: "\<And>s f. R s (snd (app_optional_call f s))"
    using refl do_call by (simp add: app_optional_call_def split: jsval.splits)
  have seq: "\<And>m f r s'.
      (case m of None \<Rightarrow> None | Some (Inl err, s1) \<Rightarrow> Some (Inl err, s1) | Some (Inr u, s1) \<Rightarrow> f u s1)
        = Some (r, s') \<Longrightarrow>
      m = Some (r, s') \<or> (\<exists>u s1. m = Some (Inr u, s1) \<and> f u s1 = Some (r, s'))"
    by (auto split: option.splits sum.splits prod.splits)
  show ?case
  proof (cases c)
    case (ContextsForEach t k)
    let ?entries = "contexts (app_trackers s t)"
    show ?thesis
    proof (cases "k < length ?entries")
      case False
      with ex ContextsForEach show ?thesis by (simp add: refl)
    next
      case True
      show ?thesis
      proof (cases "?entries ! k")
        case None
        with ex ContextsForEach True show ?thesis by (simp add: IH)
      next
        case (Some c')
        with ex ContextsForEach True
        have "app_exec n (AppContextNotify c') s = Some (r, s') \<or>
              (\<exists>u s1. app_exec n (AppContextNotify c') s = Some (Inr u, s1) \<and>
                 app_exec n (ContextsForEach t (Suc k)) s1 = Some (r, s'))"
          by (simp add: seq)
        then show ?thesis using IH trans by blast
      qed
    qed
  next
    case (ListenersForEach t k prev)
    show ?thesis
    proof (cases "listeners_of s t")
      case None
      with ex ListenersForEach show ?thesis by (simp add: refl)
    next
      case (Some entries)
      show ?thesis
      proof (cases "k < length entries")
        case False
        with ex ListenersForEach Some show ?thesis by (simp add: refl)
      next
        case True
        show ?thesis
        proof (cases "entries ! k")
          case None
          with ex ListenersForEach Some True show ?thesis by (simp add: IH)
        next
          case l: (Some l)
          with ex ListenersForEach Some True
          have "app_exec n (AppRun (listener_body s l (app_getValue s t) prev)) s = Some (r, s') \<or>
                (\<exists>u s1. app_exec n (AppRun (listener_body s l (app_getValue s t) prev)) s = Some (Inr u, s1) \<and>
                   app_exec n (ListenersForEach t (Suc k) prev) s1 = Some (r, s'))"
            by (simp add: seq)
          then show ?thesis using IH trans by blast
        qed
      qed
    qed
  next
    case (AppContextNotify c')
    let ?s1 = "replace_snapshot c' s"
    have a1: "R s ?s1" by (rule snap)
    show ?thesis
    proof (cases "ctx_onUpdate (app_ctxs ?s1 c')")
      case None
      with ex AppContextNotify a1 show ?thesis by (auto simp: Let_def)
    next
      case (Some upd)
      show ?thesis
      proof (cases upd)
        case (HostUpdate h)
        with ex AppContextNotify Some trans [OF a1 do_emit] show ?thesis by (auto simp: Let_def)
      next
        case (DeriveUpdate d)
        let ?s2 = "set_der_isDirty d True ?s1"
        let ?prev = "der_value (app_derives ?s2 d)"
        have a2: "R s ?s2" using trans [OF a1 dirty] .
        let ?r3 = "if has_listeners (der_listeners (app_derives ?s2 d)) then
                     (case app_exec n (AppRun (der_cb (app_derives ?s2 d)))
                             (app_emit (AppCompute d) (set_der_isDirty d False ?s2)) of
                        None \<Rightarrow> None
                      | Some (Inl err, s3) \<Rightarrow> Some (Inl err, s3)
                      | Some (Inr v, s3) \<Rightarrow> Some (Inr Undefined, set_der_value d v s3))
                   else Some (Inr Undefined, ?s2)"
        have r3: "\<And>rr s3. ?r3 = Some (rr, s3) \<Longrightarrow> R s s3"
        proof -
          fix rr s3
          assume h: "?r3 = Some (rr, s3)"
          show "R s s3"
          proof (cases "has_listeners (der_listeners (app_derives ?s2 d))")
            case False
            with h a2 show ?thesis by simp
          next
            case True
            then have "has_listeners (der_listeners (app_derives (set_der_isDirty d False ?s2) d))"
              by (simp add: set_der_isDirty_def)
            from do_eager [OF this trans [OF a2 dirty]]
            have b: "R s (app_emit (AppCompute d) (set_der_isDirty d False ?s2))" .
            from h True obtain rr' s'' where
              run: "app_exec n (AppRun (der_cb (app_derives ?s2 d)))
                      (app_emit (AppCompute d) (set_der_isDirty d False ?s2)) = Some (rr', s'')"
              and fin: "s3 = s'' \<or> (\<exists>v. s3 = set_der_value d v s'')"
              by (auto split: option.splits sum.splits prod.splits)
            have "R s'' s3" using fin refl cache by blast
            with IH [OF run] b show ?thesis using trans by blast
          qed
        qed
        from ex AppContextNotify Some DeriveUpdate
        have "(case ?r3 of
                 None \<Rightarrow> None
               | Some (Inl err, s3) \<Rightarrow> Some (Inl err, s3)
               | Some (Inr u, s3) \<Rightarrow>
                   (case app_exec n (ContextsForEach (OfDerived d) 0) s3 of
                      None \<Rightarrow> None
                    | Some (Inl err, s4) \<Rightarrow> Some (Inl err, s4)
                    | Some (Inr u, s4) \<Rightarrow> app_exec n (ListenersForEach (OfDerived d) 0 ?prev) s4))
              = Some (r, s')"
          by (simp add: Let_def)
        then have "?r3 = Some (r, s') \<or>
           (\<exists>u s3. ?r3 = Some (Inr u, s3) \<and>
              (case app_exec n (ContextsForEach (OfDerived d) 0) s3 of
                      None \<Rightarrow> None
                    | Some (Inl err, s4) \<Rightarrow> Some (Inl err, s4)
                    | Some (Inr u, s4) \<Rightarrow> app_exec n (ListenersForEach (OfDerived d) 0 ?prev) s4)
                = Some (r, s'))"
          by (rule seq)
        then show ?thesis
        proof
          assume "?r3 = Some (r, s')"
          then show ?thesis by (rule r3)
        next
          assume "\<exists>u s3. ?r3 = Some (Inr u, s3) \<and>
              (case app_exec n (ContextsForEach (OfDerived d) 0) s3 of
                      None \<Rightarrow> None
                    | Some (Inl err, s4) \<Rightarrow> Some (Inl err, s4)
                    | Some (Inr u, s4) \<Rightarrow> app_exec n (ListenersForEach (OfDerived d) 0 ?prev) s4)
                = Some (r, s')"
          then obtain u s3 where h3: "?r3 = Some (Inr u, s3)"
            and rest: "(case app_exec n (ContextsForEach (OfDerived d) 0) s3 of
                      None \<Rightarrow> None
                    | Some (Inl err, s4) \<Rightarrow> Some (Inl err, s4)
                    | Some (Inr u, s4) \<Rightarrow> app_exec n (ListenersForEach (OfDerived d) 0 ?prev) s4)
                = Some (r, s')"
            by blast
          from seq [OF rest] IH have "R s3 s'" using trans by blast
          with r3 [OF h3] show ?thesis using trans by blast
        qed
      qed
    qed
  next
    case (AppSignalSet i v)
    show ?thesis
    proof (cases "strict_eq (app_value (app_signals s i)) v")
      case True
      with ex AppSignalSet show ?thesis
        by (auto simp: refl do_emit split: if_splits)
    next
      case False
      let ?s1 = "set_app_value i (if is_function v then produce s (app_value (app_signals s i)) v else v) s"
      let ?s2 = "if app_development ?s1
                 then app_emit (SetterDebugEntry (OfSignal i) (app_value (app_signals ?s1 i)) False) ?s1
                 else ?s1"
      have a2: "R s ?s2" using store [of s i] trans [OF store do_emit] by simp
      from ex AppSignalSet False
      have "(case app_exec n (ContextsForEach (OfSignal i) 0) ?s2 of
               None \<Rightarrow> None
             | Some (Inl err, s3) \<Rightarrow> Some (Inl err, s3)
             | Some (Inr u, s3) \<Rightarrow> app_exec n (ListenersForEach (OfSignal i) 0 (app_value (app_signals s i))) s3)
            = Some (r, s')"
        by (simp add: Let_def)
      from seq [OF this] IH have "R ?s2 s'" using trans by blast
      with a2 show ?thesis using trans by blast
    qed
  next
    case (AppDeriveGet d)
    let ?s1 = "app_track_get (OfDerived d) (app_emit (AppReadDerive d) s)"
    have r1: "R (app_emit (AppReadDerive d) s) ?s1" by (rule do_track)
    have a1: "R s ?s1" using trans [OF do_emit do_track] by simp
    show ?thesis
    proof (cases "der_isDirty (app_derives ?s1 d)")
      case False
      with ex AppDeriveGet a1 show ?thesis by (auto simp: Let_def)
    next
      case True
      let ?r2 = "app_optional_call (der_disposer (app_derives ?s1 d)) ?s1"
      have r2: "R (app_emit (AppReadDerive d) s) (snd ?r2)" using trans [OF r1 do_opt] .
      have a2: "R s (snd ?r2)" using trans [OF a1 do_opt] .
      show ?thesis
      proof (cases "fst ?r2")
        case (Inl err)
        with ex AppDeriveGet True a2 show ?thesis
          by (auto simp: Let_def split_beta split: sum.splits)
      next
        case (Inr u)
        let ?s3 = "snd (app_new_ObserverContext (snd ?r2))"
        let ?c = "fst (app_new_ObserverContext (snd ?r2))"
        have a3: "R s (app_emit (AppCompute d) ?s3)"
          using do_compute [OF trans [OF r2 do_new]] .
        have fin: "\<And>s4 v. R s4 (set_der_isDirty d False (set_der_disposer d (Unsubscribe ?c)
                     (app_subscribe ?c (DeriveUpdate d) (app_dispose (set_der_value d v s4)))))"
          using trans [OF trans [OF trans [OF trans [OF cache do_dispose] do_subscribe] keep] dirty] .
        have fin': "\<And>s4 v ev. (\<forall>d. ev \<noteq> AppCompute d) \<Longrightarrow>
            R s4 (app_emit ev (set_der_isDirty d False (set_der_disposer d (Unsubscribe ?c)
                     (app_subscribe ?c (DeriveUpdate d) (app_dispose (set_der_value d v s4))))))"
          using trans [OF fin do_emit] .
        from ex AppDeriveGet True Inr
        have cases: "(\<exists>err. app_exec n (AppRun (der_cb (app_derives ?s3 d))) (app_emit (AppCompute d) ?s3) = Some (Inl err, s'))
          \<or> (\<exists>v s4. app_exec n (AppRun (der_cb (app_derives ?s3 d))) (app_emit (AppCompute d) ?s3) = Some (Inr v, s4) \<and>
               R s4 s')"
          by (auto simp: Let_def split_beta fin fin' split: sum.splits option.splits prod.splits if_splits)
        then show ?thesis
          using a3 IH trans by blast
      qed
    qed
  next
    case (AppRun sc)
    show ?thesis
    proof (cases sc)
      case (AppReturn v)
      with ex AppRun show ?thesis by (simp add: refl)
    next
      case (AppThrow err)
      with ex AppRun show ?thesis by (simp add: refl)
    next
      case (AppGetSignal i k)
      have "R s (snd (app_signal_get i s))" by (simp add: app_signal_get_def do_track)
      moreover from ex AppRun AppGetSignal
      have "app_exec n (AppRun (k (fst (app_signal_get i s)))) (snd (app_signal_get i s)) = Some (r, s')"
        by (simp add: split_beta)
      ultimately show ?thesis using IH trans by blast
    next
      case (AppSetSignal i v k)
      with ex AppRun
      have "(case app_exec n (AppSignalSet i v) s of
               None \<Rightarrow> None
             | Some (Inl err, s1) \<Rightarrow> Some (Inl err, s1)
             | Some (Inr u, s1) \<Rightarrow> app_exec n (AppRun k) s1) = Some (r, s')"
        by simp
      from seq [OF this] show ?thesis using IH trans by blast
    next
      case (AppGetDerive d k)
      with ex AppRun
      have "(case app_exec n (AppDeriveGet d) s of
               None \<Rightarrow> None
             | Some (Inl err, s1) \<Rightarrow> Some (Inl err, s1)
             | Some (Inr v, s1) \<Rightarrow> app_exec n (AppRun (k v)) s1) = Some (r, s')"
        by simp
      from seq [OF this] show ?thesis using IH trans by blast
    qed
  next
    case (Observe cb)
    let ?s2 = "app_emit (UseSyncExternalStore (fst (app_new_ObserverContext s))) (snd (app_new_ObserverContext s))"
    have a2: "R s ?s2" using trans [OF do_new do_emit] by simp
    from ex Observe obtain rr s3 where run: "app_exec n (AppRun cb) ?s2 = Some (rr, s3)"
      and fin: "s' = app_dispose s3"
      by (auto simp: Let_def split_beta split: option.splits sum.splits prod.splits)
    from IH [OF run] a2 fin do_dispose show ?thesis using trans by blast
  qed
qed

lemma app_emit_frame [simp]:
  "app_stack (app_emit e s) = app_stack s"
  "app_ctxs (app_emit e s) = app_ctxs s"
  "app_next_context (app_emit e s) = app_next_context s"
  "app_next_snapshot (app_emit e s) = app_next_snapshot s"
  "app_trackers (app_emit e s) = app_trackers s"
  "app_signals (app_emit e s) = app_signals s"
  "app_derives (app_emit e s) = app_derives s"
  "listener_body (app_emit e s) = listener_body s"
  "produce (app_emit e s) = produce s"
  "app_development (app_emit e s) = app_development s"
  by (simp_all add: app_emit_def)

lemma replace_snapshot_frame [simp]:
  "app_stack (replace_snapshot c s) = app_stack s"
  "app_next_context (replace_snapshot c s) = app_next_context s"
  "app_trackers (replace_snapshot c s) = app_trackers s"
  "app_signals (replace_snapshot c s) = app_signals s"
  "app_derives (replace_snapshot c s) = app_derives s"
  "listener_body (replace_snapshot c s) = listener_body s"
  "produce (replace_snapshot c s) = produce s"
  "app_development (replace_snapshot c s) = app_development s"
  "app_trace (replace_snapshot c s) = app_trace s"
  by (simp_all add: replace_snapshot_def)

lemma set_app_value_frame [simp]:
  "app_stack (set_app_value i v s) = app_stack s"
  "app_ctxs (set_app_value i v s) = app_ctxs s"
  "app_next_context (set_app_value i v s) = app_next_context s"
  "app_next_snapshot (set_app_value i v s) = app_next_snapshot s"
  "app_trackers (set_app_value i v s) = app_trackers s"
  "app_derives (set_app_value i v s) = app_derives s"
  "listener_body (set_app_value i v s) = listener_body s"
  "produce (set_app_value i v s) = produce s"
  "app_development (set_app_value i v s) = app_development s"
  "app_trace (set_app_value i v s) = app_trace s"
  by (simp_all add: set_app_value_def)

lemma set_der_isDirty_frame [simp]:
  "app_stack (set_der_isDirty d b s) = app_stack s"
  "app_ctxs (set_der_isDirty d b s) = app_ctxs s"
  "app_next_context (set_der_isDirty d b s) = app_next_context s"
  "app_next_snapshot (set_der_isDirty d b s) = app_next_snapshot s"
  "app_trackers (set_der_isDirty d b s) = app_trackers s"
  "app_signals (set_der_isDirty d b s) = app_signals s"
  "listener_body (set_der_isDirty d b s) = listener_body s"
  "produce (set_der_isDirty d b s) = produce s"
  "app_development (set_der_isDirty d b s) = app_development s"
  "app_trace (set_der_isDirty d b s) = app_trace s"
  by (simp_all add: set_der_isDirty_def)

lemma set_der_value_frame [simp]:
  "app_stack (set_der_value d v s) = app_stack s"
  "app_ctxs (set_der_value d v s) = app_ctxs s"
  "app_next_context (set_der_value d v s) = app_next_context s"
  "app_next_snapshot (set_der_value d v s) = app_next_snapshot s"
  "app_trackers (set_der_value d v s) = app_trackers s"
  "app_signals (set_der_value d v s) = app_signals s"
  "listener_body (set_der_value d v s) = listener_body s"
  "produce (set_der_value d v s) = produce s"
  "app_development (set_der_value d v s) = app_development s"
  "app_trace (set_der_value d v s) = app_trace s"
  by (simp_all add: set_der_value_def)

lemma set_der_disposer_frame [simp]:
  "app_stack (set_der_disposer d f s) = app_stack s"
  "app_ctxs (set_der_disposer d f s) = app_ctxs s"
  "app_next_context (set_der_disposer d f s) = app_next_context s"
  "app_next_snapshot (set_der_disposer d f s) = app_next_snapshot s"
  "app_trackers (set_der_disposer d f s) = app_trackers s"
  "app_signals (set_der_disposer d f s) = app_signals s"
  "listener_body (set_der_disposer d f s) = listener_body s"
  "produce (set_der_disposer d f s) = produce s"
  "app_development (set_der_disposer d f s) = app_development s"
  "app_trace (set_der_disposer d f s) = app_trace s"
  by (simp_all add: set_der_disposer_def)

lemma app_addContext_frame [simp]:
  "app_stack (app_addContext t c s) = app_stack s"
  "app_ctxs (app_addContext t c s) = app_ctxs s"
  "app_next_context (app_addContext t c s) = app_next_context s"
  "app_next_snapshot (app_addContext t c s) = app_next_snapshot s"
  "app_signals (app_addContext t c s) = app_signals s"
  "app_derives (app_addContext t c s) = app_derives s"
  "listener_body (app_addContext t c s) = listener_body s"
  "produce (app_addContext t c s) = produce s"
  "app_development (app_addContext t c s) = app_development s"
  "app_trace (app_addContext t c s) = app_trace s"
  by (simp_all add: app_addContext_def)

lemma app_removeContext_frame [simp]:
  "app_stack (app_removeContext t c s) = app_stack s"
  "app_ctxs (app_removeContext t c s) = app_ctxs s"
  "app_next_context (app_removeContext t c s) = app_next_context s"
  "app_next_snapshot (app_removeContext t c s) = app_next_snapshot s"
  "app_signals (app_removeContext t c s) = app_signals s"
  "app_derives (app_removeContext t c s) = app_derives s"
  "listener_body (app_removeContext t c s) = listener_body s"
  "produce (app_removeContext t c s) = produce s"
  "app_development (app_removeContext t c s) = app_development s"
  "app_trace (app_removeContext t c s) = app_trace s"
  by (simp_all add: app_removeContext_def)

lemma app_subscribe_frame [simp]:
  "app_stack (app_subscribe c u s) = app_stack s"
  "app_next_context (app_subscribe c u s) = app_next_context s"
  "app_next_snapshot (app_subscribe c u s) = app_next_snapshot s"
  "app_signals (app_subscribe c u s) = app_signals s"
  "app_derives (app_subscribe c u s) = app_derives s"
  "listener_body (app_subscribe c u s) = listener_body s"
  "produce (app_subscribe c u s) = produce s"
  "app_development (app_subscribe c u s) = app_development s"
  "app_trace (app_subscribe c u s) = app_trace s"
  unfolding app_subscribe_def Let_def by (rule trans [OF fold_keeps], simp, simp)+

lemma app_unsubscribe_frame [simp]:
  "app_stack (app_unsubscribe c s) = app_stack s"
  "app_ctxs (app_unsubscribe c s) = app_ctxs s"
  "app_next_context (app_unsubscribe c s) = app_next_context s"
  "app_next_snapshot (app_unsubscribe c s) = app_next_snapshot s"
  "app_signals (app_unsubscribe c s) = app_signals s"
  "app_derives (app_unsubscribe c s) = app_derives s"
  "listener_body (app_unsubscribe c s) = listener_body s"
  "produce (app_unsubscribe c s) = produce s"
  "app_development (app_unsubscribe c s) = app_development s"
  "app_trace (app_unsubscribe c s) = app_trace s"
  unfolding app_unsubscribe_def by (rule fold_keeps, simp)+

lemma app_dispose_frame [simp]:
  "app_ctxs (app_dispose s) = app_ctxs s"
  "app_next_context (app_dispose s) = app_next_context s"
  "app_next_snapshot (app_dispose s) = app_next_snapshot s"
  "app_trackers (app_dispose s) = app_trackers s"
  "app_signals (app_dispose s) = app_signals s"
  "app_derives (app_dispose s) = app_derives s"
  "listener_body (app_dispose s) = listener_body s"
  "produce (app_dispose s) = produce s"
  "app_development (app_dispose s) = app_development s"
  "app_trace (app_dispose s) = app_trace s"
  by (simp_all add: app_dispose_def)

lemma app_call_disposer_frame [simp]:
  "app_stack (snd (app_call_disposer f s)) = app_stack s"
  "app_ctxs (snd (app_call_disposer f s)) = app_ctxs s"
  "app_next_context (snd (app_call_disposer f s)) = app_next_context s"
  "app_next_snapshot (snd (app_call_disposer f s)) = app_next_snapshot s"
  "app_signals (snd (app_call_disposer f s)) = app_signals s"
  "app_derives (snd (app_call_disposer f s)) = app_derives s"
  "listener_body (snd (app_call_disposer f s)) = listener_body s"
  "produce (snd (app_call_disposer f s)) = produce s"
  "app_development (snd (app_call_disposer f s)) = app_development s"
  "app_trace (snd (app_call_disposer f s)) = app_trace s"
  by (simp_all add: app_call_disposer_def split: jsval.splits)

lemma app_optional_call_frame [simp]:
  "app_stack (snd (app_optional_call f s)) = app_stack s"
  "app_ctxs (snd (app_optional_call f s)) = app_ctxs s"
  "app_next_context (snd (app_optional_call f s)) = app_next_context s"
  "app_next_snapshot (snd (app_optional_call f s)) = app_next_snapshot s"
  "app_signals (snd (app_optional_call f s)) = app_signals s"
  "app_derives (snd (app_optional_call f s)) = app_derives s"
  "listener_body (snd (app_optional_call f s)) = listener_body s"
  "produce (snd (app_optional_call f s)) = produce s"
  "app_development (snd (app_optional_call f s)) = app_development s"
  "app_trace (snd (app_optional_call f s)) = app_trace s"
  by (simp_all add: app_optional_call_def split: jsval.splits)

lemma app_new_ObserverContext_frame [simp]:
  "app_trackers (snd (app_new_ObserverContext s)) = app_trackers s"
  "app_signals (snd (app_new_ObserverContext s)) = app_signals s"
  "app_derives (snd (app_new_ObserverContext s)) = app_derives s"
  "listener_body (snd (app_new_ObserverContext s)) = listener_body s"
  "produce (snd (app_new_ObserverContext s)) = produce s"
  "app_development (snd (app_new_ObserverContext s)) = app_development s"
  "app_trace (snd (app_new_ObserverContext s)) = app_trace s"
  by (simp_all add: app_new_ObserverContext_def Let_def)

lemma app_registerSignal_frame [simp]:
  "app_stack (app_registerSignal t c s) = app_stack s"
  "app_next_context (app_registerSignal t c s) = app_next_context s"
  "app_next_snapshot (app_registerSignal t c s) = app_next_snapshot s"
  "app_trackers (app_registerSignal t c s) = app_trackers s"
  "app_signals (app_registerSignal t c s) = app_signals s"
  "app_derives (app_registerSignal t c s) = app_derives s"
  "listener_body (app_registerSignal t c s) = listener_body s"
  "produce (app_registerSignal t c s) = produce s"
  "app_development (app_registerSignal t c s) = app_development s"
  "app_trace (app_registerSignal t c s) = app_trace s"
  by (simp_all add: app_registerSignal_def)

lemma app_track_get_frame [simp]:
  "app_stack (app_track_get t s) = app_stack s"
  "app_next_context (app_track_get t s) = app_next_context s"
  "app_next_snapshot (app_track_get t s) = app_next_snapshot s"
  "app_trackers (app_track_get t s) = app_trackers s"
  "app_signals (app_track_get t s) = app_signals s"
  "app_derives (app_track_get t s) = app_derives s"
  "listener_body (app_track_get t s) = listener_body s"
  "produce (app_track_get t s) = produce s"
  "app_development (app_track_get t s) = app_development s"
  by (simp_all add: app_track_get_def Let_def split: option.splits)

lemma app_signal_get_frame [simp]:
  "app_stack (snd (app_signal_get i s)) = app_stack s"
  "app_next_context (snd (app_signal_get i s)) = app_next_context s"
  "app_next_snapshot (snd (app_signal_get i s)) = app_next_snapshot s"
  "app_trackers (snd (app_signal_get i s)) = app_trackers s"
  "app_signals (snd (app_signal_get i s)) = app_signals s"
  "app_derives (snd (app_signal_get i s)) = app_derives s"
  "listener_body (snd (app_signal_get i s)) = listener_body s"
  "produce (snd (app_signal_get i s)) = produce s"
  "app_development (snd (app_signal_get i s)) = app_development s"
  by (simp_all add: app_signal_get_def)

lemma set_der_listeners [simp]:
  "der_listeners (app_derives (set_der_isDirty d b s) e) = der_listeners (app_derives s e)"
  "der_listeners (app_derives (set_der_value d v s) e) = der_listeners (app_derives s e)"
  "der_listeners (app_derives (set_der_disposer d f s) e) = der_listeners (app_derives s e)"
  "der_cb (app_derives (set_der_isDirty d b s) e) = der_cb (app_derives s e)"
  "der_cb (app_derives (set_der_value d v s) e) = der_cb (app_derives s e)"
  "der_cb (app_derives (set_der_disposer d f s) e) = der_cb (app_derives s e)"
  by (simp_all add: set_der_isDirty_def set_der_value_def set_der_disposer_def)

section \<open>Derived values of the root package without listeners\<close>

lemma app_lazy_Nil: "app_lazy []"
  by (simp add: app_lazy_def)

lemma app_lazy_append: "app_lazy t \<Longrightarrow> app_lazy u \<Longrightarrow> app_lazy (t @ u)"
  by (auto simp: app_lazy_def intro: add_mono)

lemma app_lazy_single: "\<forall>d. e \<noteq> AppCompute d \<Longrightarrow> app_lazy [e]"
  by (auto simp: app_lazy_def)

lemma app_lazy_read_compute: "app_lazy t \<Longrightarrow> app_lazy (AppReadDerive d # t @ [AppCompute d])"
  by (auto simp: app_lazy_def le_SucI)

lemma app_track_get_trace:
  "app_trace (app_track_get t s) = app_trace s \<or>
   app_trace (app_track_get t s) = app_trace s @ [ObserveDebugEntry t]"
  by (auto simp: app_track_get_def Let_def app_emit_def app_registerSignal_def split: option.splits)

lemma unobserved_frame: "app_derives s' = app_derives s \<Longrightarrow> unobserved s' = unobserved s"
  by (simp add: unobserved_def)

lemma app_exec_lazy:
  "app_exec n c s = Some (r, s') \<Longrightarrow>
   unobserved s \<longrightarrow> unobserved s' \<and> (\<exists>t. app_trace s' = app_trace s @ t \<and> app_lazy t)"
proof (rule app_exec_rel [where R = "\<lambda>s s'. unobserved s \<longrightarrow>
    unobserved s' \<and> (\<exists>t. app_trace s' = app_trace s @ t \<and> app_lazy t)"])
  fix s :: app_state
  show "unobserved s \<longrightarrow> unobserved s \<and> (\<exists>t. app_trace s = app_trace s @ t \<and> app_lazy t)"
    by (simp add: app_lazy_Nil)
next
  fix s t u :: app_state
  assume 1: "unobserved s \<longrightarrow> unobserved t \<and> (\<exists>x. app_trace t = app_trace s @ x \<and> app_lazy x)"
    and 2: "unobserved t \<longrightarrow> unobserved u \<and> (\<exists>y. app_trace u = app_trace t @ y \<and> app_lazy y)"
  show "unobserved s \<longrightarrow> unobserved u \<and> (\<exists>z. app_trace u = app_trace s @ z \<and> app_lazy z)"
  proof
    assume "unobserved s"
    with 1 2 obtain x y where "unobserved u" "app_trace t = app_trace s @ x" "app_lazy x"
      "app_trace u = app_trace t @ y" "app_lazy y" by blast
    then have "unobserved u \<and> app_trace u = app_trace s @ (x @ y) \<and> app_lazy (x @ y)"
      by (simp add: app_lazy_append)
    then show "unobserved u \<and> (\<exists>z. app_trace u = app_trace s @ z \<and> app_lazy z)" by blast
  qed
next
  fix s :: app_state and e
  assume "\<forall>d. e \<noteq> AppCompute d"
  then have "app_trace (app_emit e s) = app_trace s @ [e] \<and> app_lazy [e]"
    by (simp add: app_emit_def app_lazy_single)
  then show "unobserved s \<longrightarrow> unobserved (app_emit e s) \<and>
      (\<exists>t. app_trace (app_emit e s) = app_trace s @ t \<and> app_lazy t)"
    by (auto simp: unobserved_def)
next
  fix s s' :: app_state and d
  assume h: "unobserved (app_emit (AppReadDerive d) s) \<longrightarrow> unobserved s' \<and>
      (\<exists>t. app_trace s' = app_trace (app_emit (AppReadDerive d) s) @ t \<and> app_lazy t)"
  show "unobserved s \<longrightarrow> unobserved (app_emit (AppCompute d) s') \<and>
      (\<exists>t. app_trace (app_emit (AppCompute d) s') = app_trace s @ t \<and> app_lazy t)"
  proof
    assume "unobserved s"
    then have "unobserved (app_emit (AppReadDerive d) s)" by (simp add: unobserved_def)
    with h obtain t where u: "unobserved s'" and "app_trace s' = app_trace s @ [AppReadDerive d] @ t" "app_lazy t"
      by (auto simp: app_emit_def)
    then have "app_trace (app_emit (AppCompute d) s') = app_trace s @ (AppReadDerive d # t @ [AppCompute d]) \<and>
               app_lazy (AppReadDerive d # t @ [AppCompute d])"
      by (simp add: app_emit_def app_lazy_read_compute)
    with u show "unobserved (app_emit (AppCompute d) s') \<and>
      (\<exists>t. app_trace (app_emit (AppCompute d) s') = app_trace s @ t \<and> app_lazy t)"
      by (auto simp: unobserved_def)
  qed
next
  fix s s' :: app_state and d
  assume "has_listeners (der_listeners (app_derives s' d))"
    and "unobserved s \<longrightarrow> unobserved s' \<and> (\<exists>t. app_trace s' = app_trace s @ t \<and> app_lazy t)"
  then have "\<not> unobserved s" by (auto simp: unobserved_def)
  then show "unobserved s \<longrightarrow> unobserved (app_emit (AppCompute d) s') \<and>
      (\<exists>t. app_trace (app_emit (AppCompute d) s') = app_trace s @ t \<and> app_lazy t)"
    by simp
next
  fix s :: app_state and t
  from app_track_get_trace [of t s]
  show "unobserved s \<longrightarrow> unobserved (app_track_get t s) \<and>
      (\<exists>x. app_trace (app_track_get t s) = app_trace s @ x \<and> app_lazy x)"
    by (auto simp: app_lazy_Nil app_lazy_single unobserved_def)
qed (simp_all add: app_lazy_Nil unobserved_def)

lemmas app_engine_defs =
  app_signal_def derive_def app_init_def derive_onChange_def signal_onChange_def add_listener_def
  delete_listener_def signal_offChange_def derive_offChange_def
  app_new_ObserverContext_def app_registerSignal_def app_addContext_def app_removeContext_def
  app_subscribe_def app_unsubscribe_def app_dispose_def app_track_get_def app_signal_get_def
  app_current_def app_emit_def app_getValue_def listeners_of_def has_listeners_def
  app_call_disposer_def app_optional_call_def replace_snapshot_def set_app_value_def
  set_der_isDirty_def set_der_value_def set_der_disposer_def
  app_tracker_notify_def app_context_notify_def app_signal_set_def app_derive_get_def
  app_listeners_forEach_def app_run_def observe_def app_then_do_def derive_seen_def app_after_def
  doubling_def
  set_has_def set_add_def set_delete_def Let_def split_beta

section \<open>The debug hooks\<close>

text \<open>
  C9 fails on the code. The setter registers the write with the current context only
  inside the block guarded by \<open>signalDebugHooks.onSetValue\<close>. An effect reads signal 0
  and writes 1 to it; afterwards the program writes 2. Without hooks the effect keeps
  its read registration, is subscribed, and runs again on the write: the signal ends
  with 1 after one notification. With an \<open>onSetValue\<close> hook installed the write inside
  the effect replaces the read registration by a write registration, the effect is
  subscribed to nothing, and the later write notifies nobody: the signal ends with 2.
\<close>

theorem hook_alters_dependencies:
  "(\<exists>s. self_writing \<lparr>onGetValue = False, onSetValue = False, onEffectRun = False\<rparr> = Some (Inr Undefined, s) \<and>
        svalue (signals s 0) = Num 1 \<and> version s = 1 \<and>
        trace s = [RunEffect 0, CleanupCall (Unsubscribe 0), RunEffect 0] \<and>
        getters (ctxs s 0) = [Some (OfSignal 0)] \<and> setters (ctxs s 0) = [] \<and>
        contexts (trackers s (OfSignal 0)) = [None, Some 1]) \<and>
   (\<exists>s. self_writing \<lparr>onGetValue = False, onSetValue = True, onEffectRun = False\<rparr> = Some (Inr Undefined, s) \<and>
        svalue (signals s 0) = Num 2 \<and> version s = 0 \<and>
        trace s = [RunEffect 0, OnSetValue (OfSignal 0) (Num 1) False, CleanupCall (Unsubscribe 0),
                   OnSetValue (OfSignal 0) (Num 2) False] \<and>
        getters (ctxs s 0) = [None] \<and> setters (ctxs s 0) = [Some (OfSignal 0)] \<and>
        contexts (trackers s (OfSignal 0)) = [])"
  by (simp add: self_writing_def then_do_def engine_defs eval_nat_numeral)

section \<open>The fan-out of a notification\<close>

text \<open>
  In impact-react the pass of \<open>notify\<close> walks the array made from the dependent set when
  the pass starts; what a visited context does to the set does not change the rest of
  the walk.
\<close>

lemma tracker_notify_snapshot:
  "tracker_notify (Suc n) t s = forEach_notify n (set_values (contexts (trackers s t))) s"
  "forEach_notify (Suc n) [] s = Some (Inr Undefined, s)"
  "forEach_notify (Suc n) (c # cs) s =
     (case context_notify n c s of
        None \<Rightarrow> None
      | Some (Inl err, s1) \<Rightarrow> Some (Inl err, s1)
      | Some (Inr u, s1) \<Rightarrow> forEach_notify n cs s1)"
  by (simp_all add: tracker_notify_def forEach_notify_def context_notify_def
      split: option.splits sum.splits prod.splits)

text \<open>
  C2 fails on the code of the root package, whose \<open>notify\<close> walks the live set. The
  derived values 1 and 2 depend on signal 0, and 1 has a listener that reads 2. The
  write to the signal visits the context of 2 (2 becomes dirty), then the context of 1,
  whose listener reads 2: 2 is computed again and its new context 2 is added to the
  dependents of the signal while the pass runs. The pass goes on to visit context 2:
  the derived value 2 ends the write dirty, with the value it has just computed. In
  impact-react the context that an effect adds while the pass runs is not visited in
  that pass: the effect runs once per write.
\<close>

theorem live_iteration_visits_added_context:
  "(\<exists>s. relay = Some (Inr Undefined, s) \<and>
        contexts (app_trackers s (OfSignal 0)) = [None, Some 1, Some 2] \<and>
        ctx_onUpdate (app_ctxs s 2) = Some (DeriveUpdate 2) \<and>
        der_value (app_derives s 2) = Num 1 \<and> der_isDirty (app_derives s 2) \<and>
        app_trace s = [AppReadDerive 2, AppCompute 2, AppReadDerive 1, AppCompute 1,
                       AppCompute 1, AppReadDerive 2, AppCompute 2]) \<and>
   (\<exists>s. resubscribing = Some (Inr Undefined, s) \<and>
        contexts (trackers s (OfSignal 0)) = [None, Some 1] \<and>
        version s = 1 \<and>
        trace s = [RunEffect 0, CleanupCall (Unsubscribe 0), RunEffect 0])"
  by (simp add: relay_def resubscribing_def then_do_def engine_defs app_engine_defs eval_nat_numeral)

section \<open>When the callback of a derived value runs\<close>

text \<open>
  C4, as stated, fails for \<open>derive\<close> of the root package. The derived value 0 doubles
  signal 0 and has been read once; with a listener registered, the write of 5 to the
  signal runs the callback a second time although nothing reads the derived value: the
  cached value is 10 and the dirty flag is clear right after the write. Without the
  listener the write only sets the dirty flag.
\<close>

theorem eager_counterexample:
  "derive_seen 0 listened = Some ([AppReadDerive 0, AppCompute 0, AppCompute 0], Num 10, False) \<and>
   derive_seen 0 unlistened = Some ([AppReadDerive 0, AppCompute 0], Num 0, True)"
  by (simp add: listened_def unlistened_def app_engine_defs eval_nat_numeral)

lemma derived_get_clean:
  "\<not> isDirty (deriveds s d) \<Longrightarrow>
   derived_get (Suc n) d s =
     Some (Inr (dvalue (deriveds s d)), track_get (OfDerived d) (emit (ReadDerived d) s))"
  by (simp add: derived_get_def Let_def)

lemma context_notify_derived:
  "onUpdate (ctxs s c) = DerivedUpdate d \<Longrightarrow>
   context_notify (Suc n) c s =
     tracker_notify n (OfDerived d)
       (s\<lparr>version := Suc (version s),
          deriveds := (deriveds s)(d := (deriveds s d)\<lparr>isDirty := True\<rparr>)\<rparr>)"
  by (simp add: context_notify_def tracker_notify_def Let_def)

lemma app_derive_get_clean:
  "\<not> der_isDirty (app_derives a d) \<Longrightarrow>
   app_derive_get (Suc n) d a =
     Some (Inr (der_value (app_derives a d)), app_track_get (OfDerived d) (app_emit (AppReadDerive d) a))"
  by (simp add: app_derive_get_def Let_def)

lemma replace_snapshot_onUpdate [simp]:
  "ctx_onUpdate (app_ctxs (replace_snapshot c a) c') = ctx_onUpdate (app_ctxs a c')"
  by (simp add: replace_snapshot_def)

lemma set_der_isDirty_value [simp]:
  "der_value (app_derives (set_der_isDirty d b a) e) = der_value (app_derives a e)"
  by (simp add: set_der_isDirty_def)

lemma app_context_notify_plain:
  assumes "ctx_onUpdate (app_ctxs a c) = Some (DeriveUpdate d)"
    and "\<not> has_listeners (der_listeners (app_derives a d))"
  shows "app_context_notify (Suc n) c a =
     (case app_tracker_notify n (OfDerived d) (set_der_isDirty d True (replace_snapshot c a)) of
        None \<Rightarrow> None
      | Some (Inl err, a4) \<Rightarrow> Some (Inl err, a4)
      | Some (Inr u, a4) \<Rightarrow> app_listeners_forEach n (OfDerived d) (der_value (app_derives a d)) a4)"
  using assms
  by (simp add: app_context_notify_def app_tracker_notify_def app_listeners_forEach_def Let_def
      split: option.splits sum.splits prod.splits)

lemma app_context_notify_eager:
  assumes "ctx_onUpdate (app_ctxs a c) = Some (DeriveUpdate d)"
    and "has_listeners (der_listeners (app_derives a d))"
  shows "app_context_notify (Suc n) c a =
     (case app_run n (der_cb (app_derives a d))
             (app_emit (AppCompute d) (set_der_isDirty d False (set_der_isDirty d True (replace_snapshot c a)))) of
        None \<Rightarrow> None
      | Some (Inl err, a3) \<Rightarrow> Some (Inl err, a3)
      | Some (Inr v, a3) \<Rightarrow>
          (case app_tracker_notify n (OfDerived d) (set_der_value d v a3) of
             None \<Rightarrow> None
           | Some (Inl err, a4) \<Rightarrow> Some (Inl err, a4)
           | Some (Inr u, a4) \<Rightarrow> app_listeners_forEach n (OfDerived d) (der_value (app_derives a d)) a4))"
  using assms
  by (simp add: app_context_notify_def app_tracker_notify_def app_listeners_forEach_def app_run_def Let_def
      split: option.splits sum.splits prod.splits)

text \<open>
  C4, amended. In impact-react a read of a derived value that is not dirty returns the
  cached value without calling anything; a notification of the context of a derived
  value sets the dirty flag and notifies the tracker of the derived value; and across
  any call of the module that returns (a read, a write, a notification, an effect run),
  the callback of a derived value runs no more often than that derived value is read. In
  the root package the same holds for a read that is not dirty, and across any call as
  long as no derived value has a listener; the notification of a derived value without
  a listener sets the dirty flag, notifies the tracker and calls no callback, while
  with a listener it runs the callback once at once, before it notifies the tracker.
\<close>

theorem lazy_recomputation:
  "(\<not> isDirty (deriveds s d) \<longrightarrow>
      derived_get (Suc n) d s =
        Some (Inr (dvalue (deriveds s d)), track_get (OfDerived d) (emit (ReadDerived d) s))) \<and>
   (onUpdate (ctxs s c) = DerivedUpdate d \<longrightarrow>
      context_notify (Suc n) c s =
        tracker_notify n (OfDerived d)
          (s\<lparr>version := Suc (version s),
             deriveds := (deriveds s)(d := (deriveds s d)\<lparr>isDirty := True\<rparr>)\<rparr>)) \<and>
   (exec n k s = Some (r, s') \<longrightarrow> (\<exists>t. trace s' = trace s @ t \<and> lazy t)) \<and>
   (\<not> der_isDirty (app_derives a d) \<longrightarrow>
      app_derive_get (Suc n) d a =
        Some (Inr (der_value (app_derives a d)), app_track_get (OfDerived d) (app_emit (AppReadDerive d) a))) \<and>
   (ctx_onUpdate (app_ctxs a c) = Some (DeriveUpdate d) \<and> \<not> has_listeners (der_listeners (app_derives a d)) \<longrightarrow>
      app_context_notify (Suc n) c a =
        (case app_tracker_notify n (OfDerived d) (set_der_isDirty d True (replace_snapshot c a)) of
           None \<Rightarrow> None
         | Some (Inl err, a4) \<Rightarrow> Some (Inl err, a4)
         | Some (Inr u, a4) \<Rightarrow> app_listeners_forEach n (OfDerived d) (der_value (app_derives a d)) a4)) \<and>
   (ctx_onUpdate (app_ctxs a c) = Some (DeriveUpdate d) \<and> has_listeners (der_listeners (app_derives a d)) \<longrightarrow>
      app_context_notify (Suc n) c a =
        (case app_run n (der_cb (app_derives a d))
                (app_emit (AppCompute d) (set_der_isDirty d False (set_der_isDirty d True (replace_snapshot c a)))) of
           None \<Rightarrow> None
         | Some (Inl err, a3) \<Rightarrow> Some (Inl err, a3)
         | Some (Inr v, a3) \<Rightarrow>
             (case app_tracker_notify n (OfDerived d) (set_der_value d v a3) of
                None \<Rightarrow> None
              | Some (Inl err, a4) \<Rightarrow> Some (Inl err, a4)
              | Some (Inr u, a4) \<Rightarrow> app_listeners_forEach n (OfDerived d) (der_value (app_derives a d)) a4))) \<and>
   (unobserved a \<and> app_exec n k' a = Some (r', a') \<longrightarrow>
      unobserved a' \<and> (\<exists>t. app_trace a' = app_trace a @ t \<and> app_lazy t))"
  using derived_get_clean [of s d n] context_notify_derived [of s c d n] exec_lazy [of n k s r s']
    app_derive_get_clean [of a d n] app_context_notify_plain [of a c d n]
    app_context_notify_eager [of a c d n] app_exec_lazy [of n k' a r' a']
  by blast


lemma read_once_facts:
  "read_once = Some (Inr (Num 0), after read_once)"
  "\<not> isDirty (deriveds (after read_once) 0)"
  "dvalue (deriveds (after read_once) 0) = Num 0"
  "onUpdate (ctxs (after read_once) 0) = DerivedUpdate 0"
  "version (after read_once) = 0"
  by (simp_all add: read_once_def after_def double_def engine_defs eval_nat_numeral)

lemma app_read_once_facts:
  "app_read_once = Some (Inr (Num 0), app_after app_read_once)"
  "\<not> der_isDirty (app_derives (app_after app_read_once) 0)"
  "der_value (app_derives (app_after app_read_once) 0) = Num 0"
  "ctx_onUpdate (app_ctxs (app_after app_read_once) 0) = Some (DeriveUpdate 0)"
  "unobserved (app_after app_read_once)"
  "has_listeners (der_listeners (app_derives (derive_onChange 0 0 (app_after app_read_once)) 0))"
  "ctx_onUpdate (app_ctxs (derive_onChange 0 0 (app_after app_read_once)) 0) = Some (DeriveUpdate 0)"
  by (simp_all add: app_read_once_def unobserved_def app_engine_defs eval_nat_numeral)

text \<open>
  The derived value that doubles signal 0, in both packages, after its first read; and
  the scenario of a read, a write of 5 and two more reads, in which the callback runs
  twice.
\<close>

theorem lazy_recomputation_witness:
  "derived_get 1 0 (after read_once) =
     Some (Inr (Num 0), track_get (OfDerived 0) (emit (ReadDerived 0) (after read_once))) \<and>
   context_notify 2 0 (after read_once) =
     tracker_notify 1 (OfDerived 0)
       ((after read_once)\<lparr>version := Suc (version (after read_once)),
          deriveds := (deriveds (after read_once))(0 := (deriveds (after read_once) 0)\<lparr>isDirty := True\<rparr>)\<rparr>) \<and>
   (\<exists>t. trace (after read_once) = trace (derived 0 double (signal 0 (Num 0) init)) @ t \<and> lazy t) \<and>
   seen read_write_read_read =
     Some (Inr (Num 10), 1, [ReadDerived 0, Compute 0, ReadDerived 0, Compute 0, ReadDerived 0], []) \<and>
   app_derive_get 1 0 (app_after app_read_once) =
     Some (Inr (Num 0),
           app_track_get (OfDerived 0) (app_emit (AppReadDerive 0) (app_after app_read_once))) \<and>
   app_context_notify (Suc (Suc 0)) 0 (app_after app_read_once) =
     (case app_tracker_notify (Suc 0) (OfDerived 0)
             (set_der_isDirty 0 True (replace_snapshot 0 (app_after app_read_once))) of
        None \<Rightarrow> None
      | Some (Inl err, a4) \<Rightarrow> Some (Inl err, a4)
      | Some (Inr u, a4) \<Rightarrow>
          app_listeners_forEach (Suc 0) (OfDerived 0) (der_value (app_derives (app_after app_read_once) 0)) a4) \<and>
   app_context_notify (Suc (Suc 0)) 0 (derive_onChange 0 0 (app_after app_read_once)) =
     (case app_run (Suc 0) (der_cb (app_derives (derive_onChange 0 0 (app_after app_read_once)) 0))
             (app_emit (AppCompute 0)
                (set_der_isDirty 0 False
                   (set_der_isDirty 0 True
                      (replace_snapshot 0 (derive_onChange 0 0 (app_after app_read_once)))))) of
        None \<Rightarrow> None
      | Some (Inl err, a3) \<Rightarrow> Some (Inl err, a3)
      | Some (Inr v, a3) \<Rightarrow>
          (case app_tracker_notify (Suc 0) (OfDerived 0) (set_der_value 0 v a3) of
             None \<Rightarrow> None
           | Some (Inl err, a4) \<Rightarrow> Some (Inl err, a4)
           | Some (Inr u, a4) \<Rightarrow>
               app_listeners_forEach (Suc 0) (OfDerived 0)
                 (der_value (app_derives (derive_onChange 0 0 (app_after app_read_once)) 0)) a4)) \<and>
   unobserved (app_after unlistened) \<and>
   (\<exists>t. app_trace (app_after unlistened) = app_trace (app_after app_read_once) @ t \<and> app_lazy t)"
proof -
  let ?s = "after read_once"
  let ?a = "app_after app_read_once"
  have 1: "derived_get 1 0 ?s = Some (Inr (Num 0), track_get (OfDerived 0) (emit (ReadDerived 0) ?s))"
    using lazy_recomputation [where s = ?s and d = 0 and n = 0, THEN conjunct1] read_once_facts
    by simp
  have 2: "context_notify 2 0 ?s =
     tracker_notify 1 (OfDerived 0)
       (?s\<lparr>version := Suc (version ?s),
          deriveds := (deriveds ?s)(0 := (deriveds ?s 0)\<lparr>isDirty := True\<rparr>)\<rparr>)"
    using lazy_recomputation [where s = ?s and c = 0 and d = 0 and n = "Suc 0",
        THEN conjunct2, THEN conjunct1] read_once_facts(4)
    by (simp add: eval_nat_numeral)
  have "exec 10 (DerivedGet 0) (derived 0 double (signal 0 (Num 0) init)) = Some (Inr (Num 0), ?s)"
    using read_once_facts(1) by (simp add: read_once_def derived_get_def)
  with lazy_recomputation [where n = 10 and k = "DerivedGet 0"
      and s = "derived 0 double (signal 0 (Num 0) init)" and r = "Inr (Num 0)" and s' = ?s,
      THEN conjunct2, THEN conjunct2, THEN conjunct1]
  have 3: "\<exists>t. trace ?s = trace (derived 0 double (signal 0 (Num 0) init)) @ t \<and> lazy t"
    by blast
  have 4: "seen read_write_read_read =
     Some (Inr (Num 10), 1, [ReadDerived 0, Compute 0, ReadDerived 0, Compute 0, ReadDerived 0], [])"
    by (simp add: read_write_read_read_def read_once_def then_do_def double_def engine_defs eval_nat_numeral)
  have 5: "app_derive_get 1 0 ?a =
     Some (Inr (Num 0), app_track_get (OfDerived 0) (app_emit (AppReadDerive 0) ?a))"
    using lazy_recomputation [where a = ?a and d = 0 and n = 0,
        THEN conjunct2, THEN conjunct2, THEN conjunct2, THEN conjunct1] app_read_once_facts
    by simp
  have "\<not> has_listeners (der_listeners (app_derives ?a 0))"
    using app_read_once_facts(5) by (simp add: unobserved_def)
  with lazy_recomputation [where a = ?a and c = 0 and d = 0 and n = "Suc 0",
        THEN conjunct2, THEN conjunct2, THEN conjunct2, THEN conjunct2, THEN conjunct1]
    app_read_once_facts(4)
  have 6: "app_context_notify (Suc (Suc 0)) 0 ?a =
     (case app_tracker_notify (Suc 0) (OfDerived 0) (set_der_isDirty 0 True (replace_snapshot 0 ?a)) of
        None \<Rightarrow> None
      | Some (Inl err, a4) \<Rightarrow> Some (Inl err, a4)
      | Some (Inr u, a4) \<Rightarrow>
          app_listeners_forEach (Suc 0) (OfDerived 0) (der_value (app_derives ?a 0)) a4)"
    by blast
  have run: "app_exec 10 (AppSignalSet 0 (Num 5)) ?a = Some (Inr Undefined, app_after unlistened)"
    by (simp add: unlistened_def app_read_once_def app_engine_defs eval_nat_numeral)
  with lazy_recomputation [where a = ?a and n = 10 and k' = "AppSignalSet 0 (Num 5)"
      and r' = "Inr Undefined" and a' = "app_after unlistened",
      THEN conjunct2, THEN conjunct2, THEN conjunct2, THEN conjunct2, THEN conjunct2, THEN conjunct2]
    app_read_once_facts(5)
  have 7: "unobserved (app_after unlistened) \<and>
     (\<exists>t. app_trace (app_after unlistened) = app_trace ?a @ t \<and> app_lazy t)"
    by blast
  let ?b = "derive_onChange 0 0 ?a"
  have 8: "app_context_notify (Suc (Suc 0)) 0 ?b =
     (case app_run (Suc 0) (der_cb (app_derives ?b 0))
             (app_emit (AppCompute 0)
                (set_der_isDirty 0 False (set_der_isDirty 0 True (replace_snapshot 0 ?b)))) of
        None \<Rightarrow> None
      | Some (Inl err, a3) \<Rightarrow> Some (Inl err, a3)
      | Some (Inr v, a3) \<Rightarrow>
          (case app_tracker_notify (Suc 0) (OfDerived 0) (set_der_value 0 v a3) of
             None \<Rightarrow> None
           | Some (Inl err, a4) \<Rightarrow> Some (Inl err, a4)
           | Some (Inr u, a4) \<Rightarrow>
               app_listeners_forEach (Suc 0) (OfDerived 0) (der_value (app_derives ?b 0)) a4))"
    using lazy_recomputation [where a = ?b and c = 0 and d = 0 and n = "Suc 0",
        THEN conjunct2, THEN conjunct2, THEN conjunct2, THEN conjunct2, THEN conjunct2, THEN conjunct1]
      app_read_once_facts(6,7)
    by blast
  from 1 2 3 4 5 6 7 8 show ?thesis by blast
qed

section \<open>No context ever holds a tracker for reading and for writing\<close>

text \<open>
  The registrations are made by the reads and writes of signals and derived values
  within a run; every step of the engine keeps all contexts exclusive.
\<close>

lemma all_exclusive_ctxs: "ctxs s' = ctxs s \<Longrightarrow> all_exclusive s' = all_exclusive s"
  by (simp add: all_exclusive_def)

lemma all_exclusive_track_get: "all_exclusive s \<Longrightarrow> all_exclusive (track_get t s)"
  by (auto simp: all_exclusive_def track_get_def Let_def emit_def exclusive_registerGetter
      split: option.splits)

lemma all_exclusive_set_hook: "all_exclusive s \<Longrightarrow> all_exclusive (set_hook i s)"
  by (auto simp: all_exclusive_def set_hook_def Let_def emit_def exclusive_registerSetter
      split: option.splits)

lemma all_exclusive_new:
  "all_exclusive s \<Longrightarrow> all_exclusive (snd (new_ObserverContext ty upd s))"
  by (auto simp: all_exclusive_def new_ObserverContext_def Let_def exclusive_fresh)

lemma exec_exclusive:
  "exec n k s = Some (r, s') \<Longrightarrow> all_exclusive s \<longrightarrow> all_exclusive s'"
proof (rule exec_rel [where R = "\<lambda>s s'. all_exclusive s \<longrightarrow> all_exclusive s'"])
  fix s :: state and t
  show "all_exclusive s \<longrightarrow> all_exclusive (track_get t s)"
    by (simp add: all_exclusive_track_get)
next
  fix s :: state and i
  show "all_exclusive s \<longrightarrow> all_exclusive (set_hook i s)"
    by (simp add: all_exclusive_set_hook)
next
  fix s :: state and ty u
  show "all_exclusive s \<longrightarrow> all_exclusive (snd (new_ObserverContext ty u s))"
    by (simp add: all_exclusive_new)
qed (simp_all add: all_exclusive_def)

lemma run_job_exclusive:
  assumes "run_job n j s = Some s'" and "all_exclusive s"
  shows "all_exclusive s'"
proof (cases j)
  case (OnFulfilled i a' w v)
  have s2: "all_exclusive (store_fulfilled i v s)" using assms(2) by (simp add: all_exclusive_def)
  show ?thesis
  proof (cases "aborted s a'")
    case True
    with assms OnFulfilled show ?thesis by (auto simp: run_job_def all_exclusive_def)
  next
    case False
    with assms(1) OnFulfilled obtain r s3 where
      run: "exec n (TrackerNotify (OfSignal i)) (store_fulfilled i v s) = Some (r, s3)"
      and fin: "\<exists>x. s' = s3\<lparr>microtasks := x\<rparr>"
      by (auto simp: run_job_def tracker_notify_def split: option.splits sum.splits prod.splits)
    from exec_exclusive [OF run] s2 fin show ?thesis
      by (auto simp: all_exclusive_def)
  qed
next
  case (PassRejection i a' w r)
  with assms show ?thesis by (auto simp: run_job_def all_exclusive_def)
next
  case (OnRejected i a' w v)
  have s2: "all_exclusive (store_rejected i v s)" using assms(2) by (simp add: all_exclusive_def)
  show ?thesis
  proof (cases "aborted s a'")
    case True
    with assms OnRejected show ?thesis by (auto simp: run_job_def all_exclusive_def)
  next
    case False
    with assms(1) OnRejected obtain r s3 where
      run: "exec n (TrackerNotify (OfSignal i)) (store_rejected i v s) = Some (r, s3)"
      and fin: "(\<exists>x. s' = s3\<lparr>microtasks := x\<rparr>) \<or> (\<exists>e. s' = reject_promise w e s3)"
      by (auto simp: run_job_def tracker_notify_def split: option.splits sum.splits prod.splits)
    from exec_exclusive [OF run] s2 fin show ?thesis
      by (auto simp: all_exclusive_def)
  qed
next
  case (PassFulfilment w x)
  with assms show ?thesis by (auto simp: run_job_def all_exclusive_def)
next
  case (AdoptRejected w r)
  with assms show ?thesis by (auto simp: run_job_def all_exclusive_def)
next
  case (RejectWrapper w r)
  with assms show ?thesis by (auto simp: run_job_def all_exclusive_def)
next
  case (CheckPending i)
  show ?thesis
  proof (cases "is_pending s (svalue (signals s i))")
    case False
    with assms CheckPending show ?thesis by (simp add: run_job_def)
  next
    case True
    with assms(1) CheckPending obtain r where
      run: "exec n (TrackerNotify (OfSignal i)) s = Some (r, s')"
      by (auto simp: run_job_def tracker_notify_def split: option.splits prod.splits)
    from exec_exclusive [OF run] assms(2) show ?thesis by blast
  qed
qed

lemma run_microtasks_exclusive:
  "run_microtasks n s = Some s' \<Longrightarrow> all_exclusive s \<Longrightarrow> all_exclusive s'"
proof (induction n arbitrary: s)
  case 0
  then show ?case by simp
next
  case (Suc n)
  show ?case
  proof (cases "microtasks s")
    case Nil
    with Suc.prems show ?thesis by simp
  next
    case (Cons j js)
    with Suc.prems(1) obtain s1 where job: "run_job n j (s\<lparr>microtasks := js\<rparr>) = Some s1"
      and rest: "run_microtasks n s1 = Some s'"
      by (auto split: option.splits)
    have "all_exclusive (s\<lparr>microtasks := js\<rparr>)" using Suc.prems(2) by (simp add: all_exclusive_def)
    from Suc.IH [OF rest run_job_exclusive [OF job this]] show ?thesis .
  qed
qed

lemma all_exclusive_init: "all_exclusive init"
  by (simp add: all_exclusive_def init_def exclusive_fresh)

lemma signal_ctxs [simp]: "ctxs (signal i v s) = ctxs s"
  by (cases v) (simp_all add: signal_def split_beta Let_def)

lemma derived_ctxs [simp]: "ctxs (derived d cb s) = ctxs s"
  by (simp add: derived_def)

lemma all_exclusive_constructors:
  "all_exclusive s \<Longrightarrow>
   all_exclusive (signal i v s) \<and> all_exclusive (derived d cb s) \<and>
   all_exclusive (snd (observer k s)) \<and> all_exclusive (snd (signal_get i s))"
  by (simp add: all_exclusive_new observer_def signal_get_def all_exclusive_track_get
      all_exclusive_ctxs [of "signal i v s" s] all_exclusive_ctxs [of "derived d cb s" s])

text \<open>
  C1. A context never holds a tracker both as a read and as a write dependency: a new
  context holds none, and if a context holds none then it holds none after
  \<open>registerGetter\<close> or \<open>registerSetter\<close>. \<open>registerSetter T\<close> removes the read
  registration of \<open>T\<close> and puts \<open>T\<close> into the write set, and a \<open>registerGetter T\<close>
  after it leaves the context as it is. With that, the property holds of every context
  in every state of a program: it holds initially, and it is kept by creating a signal,
  a derived value and a component context, by a read outside any run, by every call of
  the engine that returns, and by running the microtask queue.
\<close>

theorem register_exclusive:
  "exclusive (fresh_context ty upd rec) \<and>
   (exclusive c \<longrightarrow> exclusive (registerGetter t c) \<and> exclusive (registerSetter t c)) \<and>
   \<not> set_has (getters (registerSetter t c)) t \<and>
   set_has (setters (registerSetter t c)) t \<and>
   registerGetter t (registerSetter t c) = registerSetter t c \<and>
   all_exclusive init \<and>
   (all_exclusive s \<longrightarrow>
      all_exclusive (signal i v s) \<and> all_exclusive (derived d cb s) \<and>
      all_exclusive (snd (observer k s)) \<and> all_exclusive (snd (signal_get i s))) \<and>
   (all_exclusive s \<and> exec n call s = Some (r, s') \<longrightarrow> all_exclusive s') \<and>
   (all_exclusive s \<and> run_microtasks n s = Some s'' \<longrightarrow> all_exclusive s'')"
proof -
  have unread: "\<not> set_has (getters (registerSetter t c)) t"
    by (simp add: registerSetter_getters)
  have written: "set_has (setters (registerSetter t c)) t"
    by (simp add: registerSetter_setters)
  then have reread: "registerGetter t (registerSetter t c) = registerSetter t c"
    by (simp add: registerGetter_def)
  from unread written reread show ?thesis
    using exclusive_fresh [of ty upd rec] exclusive_registerGetter [of c t]
      exclusive_registerSetter [of c t] all_exclusive_init
      all_exclusive_constructors [of s i v d cb k] exec_exclusive [of n call s r s']
      run_microtasks_exclusive [of n s s'']
    by blast
qed

text \<open>
  The theorem at a context that has read the tracker of signal 0 and of the derived
  value 1, and then writes signal 0; at the program in which an effect reads signal 0
  and then writes it, with the \<open>onSetValue\<close> hook installed; and at the settlement of
  the promise a signal was created with.
\<close>

theorem register_exclusive_witness:
  "exclusive (registerSetter (OfSignal 0)
     (registerGetter (OfDerived 1) (registerGetter (OfSignal 0) (fresh_context Effect (EffectUpdate 0) False)))) \<and>
   getters (registerSetter (OfSignal 0)
     (registerGetter (OfDerived 1) (registerGetter (OfSignal 0) (fresh_context Effect (EffectUpdate 0) False))))
     = [None, Some (OfDerived 1)] \<and>
   setters (registerSetter (OfSignal 0)
     (registerGetter (OfDerived 1) (registerGetter (OfSignal 0) (fresh_context Effect (EffectUpdate 0) False))))
     = [Some (OfSignal 0)] \<and>
   all_exclusive (after (self_writing \<lparr>onGetValue = False, onSetValue = True, onEffectRun = False\<rparr>)) \<and>
   setters (ctxs (after (self_writing \<lparr>onGetValue = False, onSetValue = True, onEffectRun = False\<rparr>)) 0)
     = [Some (OfSignal 0)] \<and>
   (\<exists>s'. run_microtasks 5 (resolve_promise 0 (Num 7) in_flight) = Some s' \<and>
         microtasks s' = [] \<and> all_exclusive s')"
proof -
  let ?c0 = "fresh_context Effect (EffectUpdate 0) False"
  let ?c1 = "registerGetter (OfSignal 0) ?c0"
  let ?c2 = "registerGetter (OfDerived 1) ?c1"
  let ?h = "\<lparr>onGetValue = False, onSetValue = True, onEffectRun = False\<rparr>"
  let ?s0 = "signal 0 (Num 0) (init\<lparr>signalDebugHooks := ?h\<rparr>)"
  have e0: "exclusive ?c0"
    using register_exclusive [where ty = Effect and upd = "EffectUpdate 0" and rec = False] by blast
  have e1: "exclusive ?c1"
    using e0 register_exclusive [where c = ?c0 and t = "OfSignal 0"] by blast
  have e2: "exclusive ?c2"
    using e1 register_exclusive [where c = ?c1 and t = "OfDerived 1"] by blast
  have e3: "exclusive (registerSetter (OfSignal 0) ?c2)"
    using e2 register_exclusive [where c = ?c2 and t = "OfSignal 0"] by blast
  have g: "getters (registerSetter (OfSignal 0) ?c2) = [None, Some (OfDerived 1)]"
    by (simp add: registerSetter_def registerGetter_def fresh_context_def set_has_def
        set_add_def set_delete_def Let_def)
  have w: "setters (registerSetter (OfSignal 0) ?c2) = [Some (OfSignal 0)]"
    by (simp add: registerSetter_def registerGetter_def fresh_context_def set_has_def
        set_add_def set_delete_def Let_def)
  have i0: "all_exclusive (init\<lparr>signalDebugHooks := ?h\<rparr>)"
    by (simp add: all_exclusive_def init_def exclusive_def fresh_context_def set_has_def)
  have i1: "all_exclusive ?s0"
    using i0 register_exclusive [where s = "init\<lparr>signalDebugHooks := ?h\<rparr>" and i = 0 and v = "Num 0"]
    by blast
  let ?s1 = "?s0\<lparr>effects := (effects ?s0)(0 := \<lparr>currentSubscriptionDisposer = Undefined,
                ecb = GetSignal 0 (\<lambda>v. SetSignal 0 (Num 1) (Return Undefined))\<rparr>)\<rparr>"
  have i2: "all_exclusive ?s1" using i1 by (simp add: all_exclusive_def)
  have "\<exists>f s2. exec 10 (Updater 0) ?s1 = Some (Inr f, s2) \<and>
          exec 10 (SignalSet 0 (Num 2))
            (emit (CleanupCall f) (s2\<lparr>effects := (effects s2)(0 := (effects s2 0)\<lparr>currentSubscriptionDisposer := f\<rparr>)\<rparr>))
            = Some (Inr Undefined, after (self_writing ?h)) \<and>
          setters (ctxs (after (self_writing ?h)) 0) = [Some (OfSignal 0)]"
    by (simp add: self_writing_def then_do_def after_def engine_defs eval_nat_numeral)
  then obtain f s2 where u: "exec 10 (Updater 0) ?s1 = Some (Inr f, s2)"
    and v: "exec 10 (SignalSet 0 (Num 2))
            (emit (CleanupCall f) (s2\<lparr>effects := (effects s2)(0 := (effects s2 0)\<lparr>currentSubscriptionDisposer := f\<rparr>)\<rparr>))
            = Some (Inr Undefined, after (self_writing ?h))"
    and x: "setters (ctxs (after (self_writing ?h)) 0) = [Some (OfSignal 0)]"
    by blast
  have i3: "all_exclusive s2"
    using i2 u register_exclusive [where s = ?s1 and n = 10 and call = "Updater 0" and r = "Inr f" and s' = s2]
    by blast
  then have "all_exclusive (emit (CleanupCall f)
      (s2\<lparr>effects := (effects s2)(0 := (effects s2 0)\<lparr>currentSubscriptionDisposer := f\<rparr>)\<rparr>))"
    by (simp add: all_exclusive_def)
  with v register_exclusive [where n = 10 and call = "SignalSet 0 (Num 2)" and r = "Inr Undefined"
      and s' = "after (self_writing ?h)"
      and s = "emit (CleanupCall f)
        (s2\<lparr>effects := (effects s2)(0 := (effects s2 0)\<lparr>currentSubscriptionDisposer := f\<rparr>)\<rparr>)"]
  have i4: "all_exclusive (after (self_writing ?h))" by blast
  have "all_exclusive (resolve_promise 0 (Num 7) in_flight)"
    by (simp add: all_exclusive_def in_flight_def exclusive_def engine_defs)
  moreover have "\<exists>s'. run_microtasks 5 (resolve_promise 0 (Num 7) in_flight) = Some s' \<and>
                      microtasks s' = []"
    by (simp add: in_flight_def engine_defs eval_nat_numeral)
  then obtain q where m: "run_microtasks 5 (resolve_promise 0 (Num 7) in_flight) = Some q"
      "microtasks q = []"
    by blast
  ultimately have "all_exclusive q"
    using register_exclusive [where s = "resolve_promise 0 (Num 7) in_flight" and n = 5 and s'' = q]
    by blast
  with m have y: "\<exists>s'. run_microtasks 5 (resolve_promise 0 (Num 7) in_flight) = Some s' \<and>
         microtasks s' = [] \<and> all_exclusive s'"
    by blast
  from e3 g w i4 x y show ?thesis by blast
qed

section \<open>Writing the value a signal already holds\<close>

text \<open>
  An induction over the calls of the module for properties that depend on what the
  call is and on an invariant of the state: a relation that holds across every step a
  permitted call makes holds across every permitted call that returns, when the
  callbacks kept in a state that satisfies the invariant are permitted.
\<close>

lemma exec_guarded:
  assumes refl: "\<And>s. R s s"
    and trans: "\<And>s t u. R s t \<Longrightarrow> R t u \<Longrightarrow> R s u"
    and inv: "\<And>s t. I s \<Longrightarrow> R s t \<Longrightarrow> I t"
    and c_tracker: "\<And>t. C (TrackerNotify t)"
    and c_forEach: "\<And>cs. C (ForEachNotify cs)"
    and c_context: "\<And>c. C (ContextNotify c)"
    and c_updater: "\<And>e. C (Updater e)"
    and c_derived: "\<And>d. C (DerivedGet d)"
    and c_dcb: "\<And>s d. I s \<Longrightarrow> C (Run (dcb (deriveds s d)))"
    and c_ecb: "\<And>s e. I s \<Longrightarrow> C (Run (ecb (effects s e)))"
    and c_get: "\<And>i k v. C (Run (GetSignal i k)) \<Longrightarrow> C (Run (k v))"
    and c_set: "\<And>i v k. C (Run (SetSignal i v k)) \<Longrightarrow> C (SignalSet i v) \<and> C (Run k)"
    and c_read: "\<And>d k v. C (Run (GetDerived d k)) \<Longrightarrow> C (Run (k v))"
    and c_use: "\<And>p k v. C (Run (Use p k)) \<Longrightarrow> C (Run (k v))"
    and upd_version: "\<And>s x. R s (s\<lparr>version := x\<rparr>)"
    and upd_dirty: "\<And>s d b. R s (s\<lparr>deriveds := (deriveds s)(d := (deriveds s d)\<lparr>isDirty := b\<rparr>)\<rparr>)"
    and upd_dvalue: "\<And>s d v. R s (s\<lparr>deriveds := (deriveds s)(d := (deriveds s d)\<lparr>dvalue := v\<rparr>)\<rparr>)"
    and upd_done: "\<And>s d f. R s (s\<lparr>deriveds := (deriveds s)
                     (d := (deriveds s d)\<lparr>disposer := f, isDirty := False\<rparr>)\<rparr>)"
    and upd_effect: "\<And>s e f. R s (s\<lparr>effects := (effects s)
                     (e := (effects s e)\<lparr>currentSubscriptionDisposer := f\<rparr>)\<rparr>)"
    and upd_microtasks: "\<And>s i. R s (s\<lparr>microtasks := microtasks s @ [CheckPending i]\<rparr>)"
    and do_emit: "\<And>s e. R s (emit e s)"
    and do_call: "\<And>s f. R s (snd (call_disposer f s))"
    and do_new: "\<And>s ty u. R s (snd (new_ObserverContext ty u s))"
    and do_dispose: "\<And>s c. R s (dispose c s)"
    and do_track: "\<And>s t. R s (track_get t s)"
    and do_hook: "\<And>s i. R s (set_hook i s)"
    and do_create: "\<And>s i p. C (SignalSet i (Promise p)) \<Longrightarrow> R s (snd (createPromise i p s))"
    and do_store: "\<And>s i v w. C (SignalSet i v) \<Longrightarrow> R s (set_svalue i w s)"
  shows "exec n c s = Some (r, s') \<Longrightarrow> I s \<Longrightarrow> C c \<Longrightarrow> R s s'"
proof (induction n arbitrary: c s r s')
  case 0
  then show ?case by simp
next
  case (Suc n)
  note IH = Suc.IH and ex = Suc.prems(1) and I = Suc.prems(2) and C = Suc.prems(3)
  have do_opt: "\<And>s f. R s (snd (optional_call f s))"
    using refl do_call by (simp add: optional_call_def split: jsval.splits)
  have seq: "R s0 s'"
    if 1: "exec n c1 s0 = Some (r1, s1)" and i: "I s0" and c1: "C c1"
      and 2: "(isl r1 \<and> r = r1 \<and> s' = s1) \<or> (\<not> isl r1 \<and> exec n c2 s1 = Some (r, s'))"
      and c2: "C c2"
    for s0 c1 r1 s1 c2
  proof -
    from IH [OF 1 i c1] have a: "R s0 s1" .
    from 2 show ?thesis
    proof
      assume "isl r1 \<and> r = r1 \<and> s' = s1"
      with a show ?thesis by simp
    next
      assume "\<not> isl r1 \<and> exec n c2 s1 = Some (r, s')"
      then have "R s1 s'" using IH [OF _ inv [OF i a] c2] by blast
      with a show ?thesis by (rule trans)
    qed
  qed
  show ?case
  proof (cases c)
    case (TrackerNotify t)
    with ex have "exec n (ForEachNotify (set_values (contexts (trackers s t)))) s = Some (r, s')"
      by simp
    from IH [OF this I c_forEach] show ?thesis .
  next
    case (ForEachNotify cs)
    show ?thesis
    proof (cases cs)
      case Nil
      with ex ForEachNotify show ?thesis by (auto simp: refl)
    next
      case (Cons c' cs')
      with ex ForEachNotify
      have "\<exists>r1 s1. (exec n (ContextNotify c') s = Some (r1, s1)) \<and>
          ((isl r1 \<and> r = r1 \<and> s' = s1) \<or> (\<not> isl r1 \<and> exec n (ForEachNotify cs') s1 = Some (r, s')))"
        by (auto split: option.splits sum.splits prod.splits)
      then obtain r1 s1 where 1: "exec n (ContextNotify c') s = Some (r1, s1)"
        and 2: "(isl r1 \<and> r = r1 \<and> s' = s1) \<or> (\<not> isl r1 \<and> exec n (ForEachNotify cs') s1 = Some (r, s'))"
        by blast
      from seq [OF 1 I c_context 2 c_forEach] show ?thesis .
    qed
  next
    case (ContextNotify c')
    let ?s1 = "s\<lparr>version := Suc (version s)\<rparr>"
    have a1: "R s ?s1" by (rule upd_version)
    show ?thesis
    proof (cases "onUpdate (ctxs s c')")
      case (SetState k)
      with ex ContextNotify show ?thesis
        using trans [OF a1 do_emit] by (auto simp: Let_def)
    next
      case (DerivedUpdate d)
      let ?s2 = "?s1\<lparr>deriveds := (deriveds ?s1)(d := (deriveds ?s1 d)\<lparr>isDirty := True\<rparr>)\<rparr>"
      have a2: "R s ?s2" using trans [OF a1 upd_dirty] .
      from ex ContextNotify DerivedUpdate
      have "exec n (TrackerNotify (OfDerived d)) ?s2 = Some (r, s')"
        by (simp add: Let_def)
      from trans [OF a2 IH [OF this inv [OF I a2] c_tracker]] show ?thesis .
    next
      case (EffectUpdate e)
      let ?r2 = "call_disposer (currentSubscriptionDisposer (effects ?s1 e)) ?s1"
      have a2: "R s (snd ?r2)" using trans [OF a1 do_call] .
      show ?thesis
      proof (cases "fst ?r2")
        case (Inl err)
        with ex ContextNotify EffectUpdate have "s' = snd ?r2"
          by (auto simp: Let_def split_beta split: sum.splits)
        with a2 show ?thesis by simp
      next
        case (Inr u)
        show ?thesis
        proof (cases "exec n (Updater e) (snd ?r2)")
          case None
          with ex ContextNotify EffectUpdate Inr show ?thesis
            by (auto simp: Let_def split_beta split: sum.splits prod.splits)
        next
          case (Some res)
          obtain rr s3 where res: "res = (rr, s3)" by (cases res)
          with Some have run: "exec n (Updater e) (snd ?r2) = Some (rr, s3)" by simp
          from IH [OF run inv [OF I a2] c_updater] have 3: "R (snd ?r2) s3" .
          show ?thesis
          proof (cases rr)
            case (Inl err)
            with ex ContextNotify EffectUpdate \<open>fst ?r2 = Inr u\<close> run have "s' = s3"
              by (auto simp: Let_def split_beta split: sum.splits prod.splits)
            with trans [OF a2 3] show ?thesis by simp
          next
            case (Inr f)
            with ex ContextNotify EffectUpdate \<open>fst ?r2 = Inr u\<close> run
            have "s' = s3\<lparr>effects := (effects s3)(e := (effects s3 e)\<lparr>currentSubscriptionDisposer := f\<rparr>)\<rparr>"
              by (auto simp: Let_def split_beta split: sum.splits prod.splits)
            with trans [OF a2 trans [OF 3 upd_effect]] show ?thesis by simp
          qed
        qed
      qed
    qed
  next
    case (Updater e)
    let ?s1 = "snd (new_ObserverContext Effect (EffectUpdate e) s)"
    let ?s1' = "emit (RunEffect e) ?s1"
    have a1: "R s ?s1'" using trans [OF do_new do_emit] .
    have e1: "ecb (effects ?s1 e) = ecb (effects s e)" by simp
    show ?thesis
    proof (cases "exec n (Run (ecb (effects s e))) ?s1'")
      case None
      with ex Updater show ?thesis by (auto simp: Let_def split_beta)
    next
      case (Some res)
      obtain rr s2 where res: "res = (rr, s2)" by (cases res)
      with Some have run: "exec n (Run (ecb (effects s e))) ?s1' = Some (rr, s2)" by simp
      from IH [OF run inv [OF I a1]] c_ecb [OF I] have 2: "R ?s1' s2" by blast
      show ?thesis
      proof (cases rr)
        case (Inl err)
        with ex Updater run have "s' = s2" by (auto simp: Let_def split_beta)
        with trans [OF a1 2] show ?thesis by simp
      next
        case (Inr u)
        with ex Updater run
        have "s' = dispose (next_context s) s2 \<or> s' = dispose (next_context s) (emit (OnEffectRun e) s2)"
          by (auto simp: Let_def split_beta new_ObserverContext_def split: if_splits)
        with trans [OF a1 trans [OF 2 do_dispose]]
          trans [OF a1 trans [OF 2 trans [OF do_emit do_dispose]]]
        show ?thesis by auto
      qed
    qed
  next
    case (DerivedGet d)
    let ?s1 = "track_get (OfDerived d) (emit (ReadDerived d) s)"
    have a1: "R s ?s1" using trans [OF do_emit do_track] .
    show ?thesis
    proof (cases "isDirty (deriveds s d)")
      case False
      with ex DerivedGet a1 show ?thesis by (auto simp: Let_def)
    next
      case True
      let ?r2 = "optional_call (disposer (deriveds s d)) ?s1"
      have a2: "R s (snd ?r2)" using trans [OF a1 do_opt] .
      show ?thesis
      proof (cases "fst ?r2")
        case (Inl err)
        with ex DerivedGet True have "s' = snd ?r2"
          by (auto simp: Let_def split_beta split: sum.splits)
        with a2 show ?thesis by simp
      next
        case (Inr u)
        let ?s3 = "snd (new_ObserverContext Derived (DerivedUpdate d) (snd ?r2))"
        let ?s3' = "emit (Compute d) ?s3"
        have a3: "R s ?s3'" using trans [OF a2 trans [OF do_new do_emit]] .
        show ?thesis
        proof (cases "exec n (Run (dcb (deriveds s d))) ?s3'")
          case None
          with ex DerivedGet True Inr show ?thesis
            by (auto simp: Let_def split_beta split: sum.splits)
        next
          case (Some res)
          obtain rr s4 where res: "res = (rr, s4)" by (cases res)
          with Some have run: "exec n (Run (dcb (deriveds s d))) ?s3' = Some (rr, s4)" by simp
          from IH [OF run inv [OF I a3]] c_dcb [OF I] have 4: "R ?s3' s4" by blast
          show ?thesis
          proof (cases rr)
            case (Inl err)
            with ex DerivedGet True \<open>fst ?r2 = Inr u\<close> run have "s' = s4"
              by (auto simp: Let_def split_beta split: sum.splits)
            with trans [OF a3 4] show ?thesis by simp
          next
            case (Inr v)
            let ?s5 = "s4\<lparr>deriveds := (deriveds s4)(d := (deriveds s4 d)\<lparr>dvalue := v\<rparr>)\<rparr>"
            let ?s6 = "dispose (next_context s) ?s5"
            let ?s7 = "?s6\<lparr>deriveds := (deriveds ?s6)
                          (d := (deriveds ?s6 d)\<lparr>disposer := Unsubscribe (next_context s), isDirty := False\<rparr>)\<rparr>"
            have 7: "R s4 ?s7" using trans [OF upd_dvalue trans [OF do_dispose upd_done]] .
            have 8: "\<And>ev. R s4 (emit ev ?s7)" using trans [OF 7 do_emit] .
            from ex DerivedGet True \<open>fst ?r2 = Inr u\<close> run Inr
            have "s' = ?s7 \<or> s' = emit (OnSetValue (OfDerived d) (dvalue (deriveds ?s7 d)) True) ?s7"
              by (auto simp: Let_def split_beta new_ObserverContext_def split: sum.splits if_splits)
            with 7 8 have "R s4 s'" by auto
            from trans [OF a3 trans [OF 4 this]] show ?thesis .
          qed
        qed
      qed
    qed
  next
    case (SignalSet i v)
    show ?thesis
    proof (cases "strict_eq (svalue (signals s i)) v")
      case True
      with ex SignalSet show ?thesis
        by (auto simp: refl do_emit split: if_splits)
    next
      case False
      let ?r1 = "case v of Promise p \<Rightarrow> createPromise i p s | _ \<Rightarrow> (v, s)"
      have a1: "R s (snd ?r1)"
        using C SignalSet by (cases v) (simp_all add: refl do_create)
      let ?s3 = "set_hook i (set_svalue i (fst ?r1) (snd ?r1))"
      have a3: "R s ?s3"
        using trans [OF trans [OF a1 do_store] do_hook] C SignalSet by blast
      have a4: "R s (?s3\<lparr>microtasks := microtasks ?s3 @ [CheckPending i]\<rparr>)"
        using trans [OF a3 upd_microtasks] .
      from ex SignalSet False
      have "(s' = ?s3 \<or> s' = ?s3\<lparr>microtasks := microtasks ?s3 @ [CheckPending i]\<rparr>) \<or>
            exec n (TrackerNotify (OfSignal i)) ?s3 = Some (r, s')"
        by (auto simp: Let_def split_beta split: if_splits)
      then show ?thesis
      proof
        assume "s' = ?s3 \<or> s' = ?s3\<lparr>microtasks := microtasks ?s3 @ [CheckPending i]\<rparr>"
        with a3 a4 show ?thesis by auto
      next
        assume "exec n (TrackerNotify (OfSignal i)) ?s3 = Some (r, s')"
        from trans [OF a3 IH [OF this inv [OF I a3] c_tracker]] show ?thesis .
      qed
    qed
  next
    case (Run sc)
    show ?thesis
    proof (cases sc)
      case (Return v)
      with ex Run show ?thesis by (auto simp: refl)
    next
      case (Throw err)
      with ex Run show ?thesis by (auto simp: refl)
    next
      case (GetSignal i k)
      have a: "R s (snd (signal_get i s))" by (simp add: signal_get_def do_track)
      from ex Run GetSignal
      have "exec n (Run (k (fst (signal_get i s)))) (snd (signal_get i s)) = Some (r, s')"
        by (simp add: split_beta)
      from trans [OF a IH [OF this inv [OF I a]]] c_get [of i k] C Run GetSignal
      show ?thesis by blast
    next
      case (SetSignal i v k)
      with ex Run
      have "\<exists>r1 s1. (exec n (SignalSet i v) s = Some (r1, s1)) \<and>
          ((isl r1 \<and> r = r1 \<and> s' = s1) \<or> (\<not> isl r1 \<and> exec n (Run k) s1 = Some (r, s')))"
        by (auto split: option.splits sum.splits prod.splits)
      then obtain r1 s1 where 1: "exec n (SignalSet i v) s = Some (r1, s1)"
        and 2: "(isl r1 \<and> r = r1 \<and> s' = s1) \<or> (\<not> isl r1 \<and> exec n (Run k) s1 = Some (r, s'))"
        by blast
      from c_set [of i v k] C Run SetSignal have "C (SignalSet i v)" "C (Run k)" by simp_all
      from seq [OF 1 I this(1) 2 this(2)] show ?thesis .
    next
      case (GetDerived d k)
      with ex Run
      have "\<exists>r1 s1. (exec n (DerivedGet d) s = Some (r1, s1)) \<and>
          ((isl r1 \<and> r = r1 \<and> s' = s1) \<or> (\<exists>v. r1 = Inr v \<and> exec n (Run (k v)) s1 = Some (r, s')))"
        by (auto split: option.splits sum.splits prod.splits)
      then obtain r1 s1 where 1: "exec n (DerivedGet d) s = Some (r1, s1)"
        and 2: "(isl r1 \<and> r = r1 \<and> s' = s1) \<or> (\<exists>v. r1 = Inr v \<and> exec n (Run (k v)) s1 = Some (r, s'))"
        by blast
      from 2 obtain v where 3: "(isl r1 \<and> r = r1 \<and> s' = s1) \<or> (\<not> isl r1 \<and> exec n (Run (k v)) s1 = Some (r, s'))"
        by auto
      from c_read [of d k v] C Run GetDerived have "C (Run (k v))" by simp
      from seq [OF 1 I c_derived 3 this] show ?thesis .
    next
      case (Use p k)
      show ?thesis
      proof (cases "use_value s p")
        case (Inl err)
        with ex Run Use have "s' = s" by simp
        then show ?thesis by (simp add: refl)
      next
        case (Inr v)
        with ex Run Use have "exec n (Run (k v)) s = Some (r, s')" by simp
        from IH [OF this I] c_use [of p k v] C Run Use show ?thesis by blast
      qed
    qed
  qed
qed


lemma exec_quiet:
  assumes "exec n c s = Some (r, s')" and "quiet i s" and "call_silent i c"
  shows "same_code i s s'"
proof (rule exec_guarded [where R = "same_code i" and I = "quiet i" and C = "call_silent i",
      OF _ _ _ _ _ _ _ _ _ _ _ _ _ _ _ _ _ _ _ _ _ _ _ _ _ _ _ _ assms])
  fix s t u :: state
  show "same_code i s t \<Longrightarrow> same_code i t u \<Longrightarrow> same_code i s u"
    by (simp add: same_code_def)
next
  fix s t :: state
  show "quiet i s \<Longrightarrow> same_code i s t \<Longrightarrow> quiet i t"
    by (simp add: same_code_def quiet_def)
next
  fix s :: state and j p
  show "call_silent i (SignalSet j (Promise p)) \<Longrightarrow> same_code i s (snd (createPromise j p s))"
    by (simp add: same_code_def createPromise_def Let_def split_beta new_promise_def promise_then_def
        split: option.splits settlement.splits)
next
  fix s :: state and j v w
  show "call_silent i (SignalSet j v) \<Longrightarrow> same_code i s (set_svalue j w s)"
    by (simp add: same_code_def set_svalue_def)
qed (simp_all add: same_code_def quiet_def)

lemma app_exec_guarded:
  assumes refl: "\<And>s. R s s"
    and trans: "\<And>s t u. R s t \<Longrightarrow> R t u \<Longrightarrow> R s u"
    and inv: "\<And>s t. I s \<Longrightarrow> R s t \<Longrightarrow> I t"
    and c_contexts: "\<And>t k. C (ContextsForEach t k)"
    and c_listeners: "\<And>t k prev. C (ListenersForEach t k prev)"
    and c_context: "\<And>c. C (AppContextNotify c)"
    and c_derive: "\<And>d. C (AppDeriveGet d)"
    and c_listener: "\<And>s l v prev. I s \<Longrightarrow> C (AppRun (listener_body s l v prev))"
    and c_cb: "\<And>s d. I s \<Longrightarrow> C (AppRun (der_cb (app_derives s d)))"
    and c_get: "\<And>i k v. C (AppRun (AppGetSignal i k)) \<Longrightarrow> C (AppRun (k v))"
    and c_set: "\<And>i v k. C (AppRun (AppSetSignal i v k)) \<Longrightarrow> C (AppSignalSet i v) \<and> C (AppRun k)"
    and c_read: "\<And>d k v. C (AppRun (AppGetDerive d k)) \<Longrightarrow> C (AppRun (k v))"
    and c_observe: "\<And>cb. C (Observe cb) \<Longrightarrow> C (AppRun cb)"
    and snap: "\<And>s c. R s (replace_snapshot c s)"
    and dirty: "\<And>s d b. R s (set_der_isDirty d b s)"
    and cache: "\<And>s d v. R s (set_der_value d v s)"
    and keep: "\<And>s d f. R s (set_der_disposer d f s)"
    and store: "\<And>s i v w. C (AppSignalSet i v) \<Longrightarrow> R s (set_app_value i w s)"
    and do_emit: "\<And>s e. R s (app_emit e s)"
    and do_call: "\<And>s f. R s (snd (app_call_disposer f s))"
    and do_new: "\<And>s. R s (snd (app_new_ObserverContext s))"
    and do_dispose: "\<And>s. R s (app_dispose s)"
    and do_subscribe: "\<And>s c u. R s (app_subscribe c u s)"
    and do_track: "\<And>s t. R s (app_track_get t s)"
  shows "app_exec n c s = Some (r, s') \<Longrightarrow> I s \<Longrightarrow> C c \<Longrightarrow> R s s'"
proof (induction n arbitrary: c s r s')
  case 0
  then show ?case by simp
next
  case (Suc n)
  note IH = Suc.IH and ex = Suc.prems(1) and I = Suc.prems(2) and C = Suc.prems(3)
  have do_opt: "\<And>s f. R s (snd (app_optional_call f s))"
    using refl do_call by (simp add: app_optional_call_def split: jsval.splits)
  have seq: "\<And>m f r s'.
      (case m of None \<Rightarrow> None | Some (Inl err, s1) \<Rightarrow> Some (Inl err, s1) | Some (Inr u, s1) \<Rightarrow> f u s1)
        = Some (r, s') \<Longrightarrow>
      m = Some (r, s') \<or> (\<exists>u s1. m = Some (Inr u, s1) \<and> f u s1 = Some (r, s'))"
    by (auto split: option.splits sum.splits prod.splits)
  have two: "R s0 t"
    if h: "(case app_exec n c1 s0 of None \<Rightarrow> None | Some (Inl err, s1) \<Rightarrow> Some (Inl err, s1)
            | Some (Inr u, s1) \<Rightarrow> app_exec n (c2 u) s1) = Some (rr, t)"
      and i: "I s0" and c1: "C c1" and c2: "\<And>u. C (c2 u)"
    for s0 c1 c2 rr t
  proof -
    from seq [OF h] show ?thesis
    proof
      assume "app_exec n c1 s0 = Some (rr, t)"
      from IH [OF this i c1] show ?thesis .
    next
      assume "\<exists>u s1. app_exec n c1 s0 = Some (Inr u, s1) \<and> app_exec n (c2 u) s1 = Some (rr, t)"
      then obtain u s1 where 1: "app_exec n c1 s0 = Some (Inr u, s1)"
        and 2: "app_exec n (c2 u) s1 = Some (rr, t)" by blast
      from IH [OF 1 i c1] have a: "R s0 s1" .
      from trans [OF a IH [OF 2 inv [OF i a] c2]] show ?thesis .
    qed
  qed
  show ?case
  proof (cases c)
    case (ContextsForEach t k)
    let ?entries = "contexts (app_trackers s t)"
    show ?thesis
    proof (cases "k < length ?entries")
      case False
      with ex ContextsForEach show ?thesis by (simp add: refl)
    next
      case True
      show ?thesis
      proof (cases "?entries ! k")
        case None
        with ex ContextsForEach True have "app_exec n (ContextsForEach t (Suc k)) s = Some (r, s')"
          by simp
        from IH [OF this I c_contexts] show ?thesis .
      next
        case (Some c')
        with ex ContextsForEach True
        have "(case app_exec n (AppContextNotify c') s of None \<Rightarrow> None
                | Some (Inl err, s1) \<Rightarrow> Some (Inl err, s1)
                | Some (Inr u, s1) \<Rightarrow> app_exec n (ContextsForEach t (Suc k)) s1) = Some (r, s')"
          by simp
        from two [OF this I c_context c_contexts] show ?thesis .
      qed
    qed
  next
    case (ListenersForEach t k prev)
    show ?thesis
    proof (cases "listeners_of s t")
      case None
      with ex ListenersForEach show ?thesis by (simp add: refl)
    next
      case (Some entries)
      show ?thesis
      proof (cases "k < length entries")
        case False
        with ex ListenersForEach Some show ?thesis by (simp add: refl)
      next
        case True
        show ?thesis
        proof (cases "entries ! k")
          case None
          with ex ListenersForEach Some True
          have "app_exec n (ListenersForEach t (Suc k) prev) s = Some (r, s')" by simp
          from IH [OF this I c_listeners] show ?thesis .
        next
          case l: (Some l)
          with ex ListenersForEach Some True
          have "(case app_exec n (AppRun (listener_body s l (app_getValue s t) prev)) s of None \<Rightarrow> None
                  | Some (Inl err, s1) \<Rightarrow> Some (Inl err, s1)
                  | Some (Inr u, s1) \<Rightarrow> app_exec n (ListenersForEach t (Suc k) prev) s1) = Some (r, s')"
            by simp
          from two [OF this I c_listener [OF I] c_listeners] show ?thesis .
        qed
      qed
    qed
  next
    case (AppContextNotify c')
    let ?s1 = "replace_snapshot c' s"
    have a1: "R s ?s1" by (rule snap)
    show ?thesis
    proof (cases "ctx_onUpdate (app_ctxs ?s1 c')")
      case None
      with ex AppContextNotify a1 show ?thesis by (auto simp: Let_def)
    next
      case (Some upd)
      show ?thesis
      proof (cases upd)
        case (HostUpdate h)
        with ex AppContextNotify Some trans [OF a1 do_emit] show ?thesis by (auto simp: Let_def)
      next
        case (DeriveUpdate d)
        let ?s2 = "set_der_isDirty d True ?s1"
        let ?prev = "der_value (app_derives ?s2 d)"
        have a2: "R s ?s2" using trans [OF a1 dirty] .
        let ?r3 = "if has_listeners (der_listeners (app_derives ?s2 d)) then
                     (case app_exec n (AppRun (der_cb (app_derives ?s2 d)))
                             (app_emit (AppCompute d) (set_der_isDirty d False ?s2)) of
                        None \<Rightarrow> None
                      | Some (Inl err, s3) \<Rightarrow> Some (Inl err, s3)
                      | Some (Inr v, s3) \<Rightarrow> Some (Inr Undefined, set_der_value d v s3))
                   else Some (Inr Undefined, ?s2)"
        have r3: "\<And>rr s3. ?r3 = Some (rr, s3) \<Longrightarrow> R s s3"
        proof -
          fix rr s3
          assume h: "?r3 = Some (rr, s3)"
          show "R s s3"
          proof (cases "has_listeners (der_listeners (app_derives ?s2 d))")
            case False
            with h a2 show ?thesis by simp
          next
            case True
            let ?s2' = "app_emit (AppCompute d) (set_der_isDirty d False ?s2)"
            have b: "R s ?s2'" using trans [OF a2 trans [OF dirty do_emit]] .
            from h True have "\<exists>rr' s''. app_exec n (AppRun (der_cb (app_derives ?s2 d))) ?s2' = Some (rr', s'') \<and>
                (s3 = s'' \<or> (\<exists>v. s3 = set_der_value d v s''))"
              by (auto split: option.splits sum.splits prod.splits)
            then obtain rr' s'' where
              run: "app_exec n (AppRun (der_cb (app_derives ?s2 d))) ?s2' = Some (rr', s'')"
              and fin: "s3 = s'' \<or> (\<exists>v. s3 = set_der_value d v s'')"
              by blast
            have "R s'' s3" using fin refl cache by blast
            moreover have "R ?s2' s''"
              using IH [OF run inv [OF I b]] c_cb [OF inv [OF I a2]] by blast
            ultimately show ?thesis using b trans by blast
          qed
        qed
        from ex AppContextNotify Some DeriveUpdate
        have "(case ?r3 of
                 None \<Rightarrow> None
               | Some (Inl err, s3) \<Rightarrow> Some (Inl err, s3)
               | Some (Inr u, s3) \<Rightarrow>
                   (case app_exec n (ContextsForEach (OfDerived d) 0) s3 of
                      None \<Rightarrow> None
                    | Some (Inl err, s4) \<Rightarrow> Some (Inl err, s4)
                    | Some (Inr u, s4) \<Rightarrow> app_exec n (ListenersForEach (OfDerived d) 0 ?prev) s4))
              = Some (r, s')"
          by (simp add: Let_def)
        then have "?r3 = Some (r, s') \<or>
           (\<exists>u s3. ?r3 = Some (Inr u, s3) \<and>
              (case app_exec n (ContextsForEach (OfDerived d) 0) s3 of
                      None \<Rightarrow> None
                    | Some (Inl err, s4) \<Rightarrow> Some (Inl err, s4)
                    | Some (Inr u, s4) \<Rightarrow> app_exec n (ListenersForEach (OfDerived d) 0 ?prev) s4)
                = Some (r, s'))"
          by (rule seq)
        then show ?thesis
        proof
          assume "?r3 = Some (r, s')"
          then show ?thesis by (rule r3)
        next
          assume "\<exists>u s3. ?r3 = Some (Inr u, s3) \<and>
              (case app_exec n (ContextsForEach (OfDerived d) 0) s3 of
                      None \<Rightarrow> None
                    | Some (Inl err, s4) \<Rightarrow> Some (Inl err, s4)
                    | Some (Inr u, s4) \<Rightarrow> app_exec n (ListenersForEach (OfDerived d) 0 ?prev) s4)
                = Some (r, s')"
          then obtain u s3 where h3: "?r3 = Some (Inr u, s3)"
            and rest: "(case app_exec n (ContextsForEach (OfDerived d) 0) s3 of
                      None \<Rightarrow> None
                    | Some (Inl err, s4) \<Rightarrow> Some (Inl err, s4)
                    | Some (Inr u, s4) \<Rightarrow> app_exec n (ListenersForEach (OfDerived d) 0 ?prev) s4)
                = Some (r, s')"
            by blast
          have b: "R s s3" using r3 [OF h3] .
          from two [OF rest inv [OF I b] c_contexts c_listeners] have "R s3 s'" .
          with b show ?thesis by (rule trans)
        qed
      qed
    qed
  next
    case (AppSignalSet i v)
    show ?thesis
    proof (cases "strict_eq (app_value (app_signals s i)) v")
      case True
      with ex AppSignalSet show ?thesis
        by (auto simp: refl do_emit split: if_splits)
    next
      case False
      let ?s1 = "set_app_value i (if is_function v then produce s (app_value (app_signals s i)) v else v) s"
      let ?s2 = "if app_development ?s1
                 then app_emit (SetterDebugEntry (OfSignal i) (app_value (app_signals ?s1 i)) False) ?s1
                 else ?s1"
      have st: "R s ?s1" using store C AppSignalSet by blast
      have a2: "R s ?s2" using st trans [OF st do_emit] by simp
      from ex AppSignalSet False
      have "(case app_exec n (ContextsForEach (OfSignal i) 0) ?s2 of
               None \<Rightarrow> None
             | Some (Inl err, s3) \<Rightarrow> Some (Inl err, s3)
             | Some (Inr u, s3) \<Rightarrow> app_exec n (ListenersForEach (OfSignal i) 0 (app_value (app_signals s i))) s3)
            = Some (r, s')"
        by (simp add: Let_def)
      from two [OF this inv [OF I a2] c_contexts c_listeners] have "R ?s2 s'" .
      with a2 show ?thesis by (rule trans)
    qed
  next
    case (AppDeriveGet d)
    let ?s1 = "app_track_get (OfDerived d) (app_emit (AppReadDerive d) s)"
    have a1: "R s ?s1" using trans [OF do_emit do_track] by simp
    show ?thesis
    proof (cases "der_isDirty (app_derives s d)")
      case False
      with ex AppDeriveGet a1 show ?thesis by (auto simp: Let_def)
    next
      case True
      let ?r2 = "app_optional_call (der_disposer (app_derives s d)) ?s1"
      have a2: "R s (snd ?r2)" using trans [OF a1 do_opt] .
      show ?thesis
      proof (cases "fst ?r2")
        case (Inl err)
        with ex AppDeriveGet True a2 show ?thesis
          by (auto simp: Let_def split_beta split: sum.splits)
      next
        case (Inr u)
        let ?s3 = "snd (app_new_ObserverContext (snd ?r2))"
        let ?c = "fst (app_new_ObserverContext (snd ?r2))"
        have a3: "R s (app_emit (AppCompute d) ?s3)"
          using trans [OF a2 trans [OF do_new do_emit]] .
        have fin: "\<And>s4 v. R s4 (set_der_isDirty d False (set_der_disposer d (Unsubscribe ?c)
                     (app_subscribe ?c (DeriveUpdate d) (app_dispose (set_der_value d v s4)))))"
          using trans [OF trans [OF trans [OF trans [OF cache do_dispose] do_subscribe] keep] dirty] .
        have fin': "\<And>s4 v ev.
            R s4 (app_emit ev (set_der_isDirty d False (set_der_disposer d (Unsubscribe ?c)
                     (app_subscribe ?c (DeriveUpdate d) (app_dispose (set_der_value d v s4))))))"
          using trans [OF fin do_emit] .
        from ex AppDeriveGet True Inr
        have cases: "(\<exists>err. app_exec n (AppRun (der_cb (app_derives s d))) (app_emit (AppCompute d) ?s3) = Some (Inl err, s'))
          \<or> (\<exists>v s4. app_exec n (AppRun (der_cb (app_derives s d))) (app_emit (AppCompute d) ?s3) = Some (Inr v, s4) \<and>
               R s4 s')"
          by (auto simp: Let_def split_beta fin fin' split: sum.splits option.splits prod.splits if_splits)
        have c3: "C (AppRun (der_cb (app_derives s d)))"
          using c_cb [OF I] .
        from cases show ?thesis
        proof (elim disjE exE conjE)
          fix err
          assume "app_exec n (AppRun (der_cb (app_derives s d))) (app_emit (AppCompute d) ?s3) = Some (Inl err, s')"
          from trans [OF a3 IH [OF this inv [OF I a3] c3]] show ?thesis .
        next
          fix v s4
          assume run: "app_exec n (AppRun (der_cb (app_derives s d))) (app_emit (AppCompute d) ?s3) = Some (Inr v, s4)"
            and f: "R s4 s'"
          from trans [OF a3 trans [OF IH [OF run inv [OF I a3] c3] f]] show ?thesis .
        qed
      qed
    qed
  next
    case (AppRun sc)
    show ?thesis
    proof (cases sc)
      case (AppReturn v)
      with ex AppRun show ?thesis by (simp add: refl)
    next
      case (AppThrow err)
      with ex AppRun show ?thesis by (simp add: refl)
    next
      case (AppGetSignal i k)
      have a: "R s (snd (app_signal_get i s))" by (simp add: app_signal_get_def do_track)
      from ex AppRun AppGetSignal
      have "app_exec n (AppRun (k (fst (app_signal_get i s)))) (snd (app_signal_get i s)) = Some (r, s')"
        by (simp add: split_beta)
      from trans [OF a IH [OF this inv [OF I a]]] c_get [of i k] C AppRun AppGetSignal
      show ?thesis by blast
    next
      case (AppSetSignal i v k)
      with ex AppRun
      have h: "(case app_exec n (AppSignalSet i v) s of
               None \<Rightarrow> None
             | Some (Inl err, s1) \<Rightarrow> Some (Inl err, s1)
             | Some (Inr u, s1) \<Rightarrow> app_exec n (AppRun k) s1) = Some (r, s')"
        by simp
      from c_set [of i v k] C AppRun AppSetSignal have "C (AppSignalSet i v)" "C (AppRun k)" by simp_all
      from two [OF h I this] show ?thesis .
    next
      case (AppGetDerive d k)
      with ex AppRun
      have h: "(case app_exec n (AppDeriveGet d) s of
               None \<Rightarrow> None
             | Some (Inl err, s1) \<Rightarrow> Some (Inl err, s1)
             | Some (Inr v, s1) \<Rightarrow> app_exec n (AppRun (k v)) s1) = Some (r, s')"
        by simp
      from c_read [of d k] C AppRun AppGetDerive have "\<And>v. C (AppRun (k v))" by simp
      from two [OF h I c_derive this] show ?thesis .
    qed
  next
    case (Observe cb)
    let ?s2 = "app_emit (UseSyncExternalStore (fst (app_new_ObserverContext s))) (snd (app_new_ObserverContext s))"
    have a2: "R s ?s2" using trans [OF do_new do_emit] by simp
    from ex Observe have "\<exists>rr s3. app_exec n (AppRun cb) ?s2 = Some (rr, s3) \<and> s' = app_dispose s3"
      by (auto simp: Let_def split_beta split: option.splits sum.splits prod.splits)
    then obtain rr s3 where run: "app_exec n (AppRun cb) ?s2 = Some (rr, s3)"
      and fin: "s' = app_dispose s3" by blast
    from c_observe C Observe have "C (AppRun cb)" by simp
    from IH [OF run inv [OF I a2] this] have "R ?s2 s3" .
    from trans [OF a2 trans [OF this do_dispose]] fin show ?thesis by simp
  qed
qed


lemma app_exec_quiet:
  assumes "app_exec n c s = Some (r, s')" and "app_quiet i s" and "app_call_silent i c"
  shows "app_same_code i s s'"
proof (rule app_exec_guarded [where R = "app_same_code i" and I = "app_quiet i" and C = "app_call_silent i",
      OF _ _ _ _ _ _ _ _ _ _ _ _ _ _ _ _ _ _ _ _ _ _ _ _ assms])
  fix s t u :: app_state
  show "app_same_code i s t \<Longrightarrow> app_same_code i t u \<Longrightarrow> app_same_code i s u"
    by (simp add: app_same_code_def)
next
  fix s t :: app_state
  show "app_quiet i s \<Longrightarrow> app_same_code i s t \<Longrightarrow> app_quiet i t"
    by (simp add: app_same_code_def app_quiet_def)
next
  fix s :: app_state and j v w
  show "app_call_silent i (AppSignalSet j v) \<Longrightarrow> app_same_code i s (set_app_value j w s)"
    by (simp add: app_same_code_def set_app_value_def)
next
  fix s :: app_state and d b
  show "app_same_code i s (set_der_isDirty d b s)"
    by (simp add: app_same_code_def set_der_isDirty_def)
next
  fix s :: app_state and d v
  show "app_same_code i s (set_der_value d v s)"
    by (simp add: app_same_code_def set_der_value_def)
next
  fix s :: app_state and d f
  show "app_same_code i s (set_der_disposer d f s)"
    by (simp add: app_same_code_def set_der_disposer_def)
qed (simp_all add: app_same_code_def app_quiet_def)

lemma strict_eq_same: "strict_eq a b \<Longrightarrow> a = b"
  by (cases a; cases b) simp_all

lemma written_twice:
  assumes q: "quiet i s" and v: "\<not> is_promise v" and w: "signal_set n i v s = Some (r, s1)"
  shows "svalue (signals s1 i) = v \<and> quiet i s1"
proof (cases "strict_eq (svalue (signals s i)) v")
  case True
  with w have "signals s1 i = signals s i \<and> deriveds s1 = deriveds s \<and> effects s1 = effects s"
    by (cases n) (auto simp: signal_set_def split: if_splits)
  with True q show ?thesis by (simp add: quiet_def strict_eq_same)
next
  case False
  let ?s3 = "set_hook i (set_svalue i v s)"
  have q3: "quiet i ?s3" using q by (simp add: quiet_def)
  have v3: "svalue (signals ?s3 i) = v" by (simp add: set_svalue_def)
  from w obtain m where n: "n = Suc m" by (cases n) (simp_all add: signal_set_def)
  with w signal_set_plain [OF False v, of m]
  have "exec m (TrackerNotify (OfSignal i)) ?s3 = Some (r, s1)"
    by (simp add: tracker_notify_def)
  from exec_quiet [OF this q3] have "same_code i ?s3 s1" by simp
  with q3 v3 show ?thesis by (simp add: same_code_def quiet_def)
qed

lemma app_written_twice:
  assumes q: "app_quiet i s" and v: "\<not> is_function v" and w: "app_signal_set n i v s = Some (r, s1)"
  shows "app_value (app_signals s1 i) = v \<and> app_quiet i s1"
proof (cases "strict_eq (app_value (app_signals s i)) v")
  case True
  with w have "app_signals s1 i = app_signals s i \<and> app_derives s1 = app_derives s \<and>
      listener_body s1 = listener_body s"
    by (cases n) (auto simp: app_signal_set_def split: if_splits)
  with True q show ?thesis by (simp add: app_quiet_def strict_eq_same)
next
  case False
  let ?s1 = "set_app_value i v s"
  let ?s2 = "if app_development ?s1
             then app_emit (SetterDebugEntry (OfSignal i) (app_value (app_signals ?s1 i)) False) ?s1
             else ?s1"
  have q2: "app_quiet i ?s2" using q by (simp add: app_quiet_def)
  have v2: "app_value (app_signals ?s2 i) = v" by (simp add: set_app_value_def)
  from w obtain m where n: "n = Suc m" by (cases n) (simp_all add: app_signal_set_def)
  with w False v
  have h: "(case app_exec m (ContextsForEach (OfSignal i) 0) ?s2 of
           None \<Rightarrow> None
         | Some (Inl err, s3) \<Rightarrow> Some (Inl err, s3)
         | Some (Inr u, s3) \<Rightarrow> app_exec m (ListenersForEach (OfSignal i) 0 (app_value (app_signals s i))) s3)
        = Some (r, s1)"
    by (simp add: app_signal_set_def Let_def)
  have "app_same_code i ?s2 s1"
  proof (cases "app_exec m (ContextsForEach (OfSignal i) 0) ?s2")
    case None
    with h show ?thesis by simp
  next
    case (Some res)
    obtain rr s3 where res: "res = (rr, s3)" by (cases res)
    with Some have 1: "app_exec m (ContextsForEach (OfSignal i) 0) ?s2 = Some (rr, s3)" by simp
    from app_exec_quiet [OF 1 q2] have a: "app_same_code i ?s2 s3" by simp
    show ?thesis
    proof (cases rr)
      case (Inl err)
      with h 1 have "s1 = s3" by simp
      with a show ?thesis by simp
    next
      case (Inr u)
      with h 1 have 2: "app_exec m (ListenersForEach (OfSignal i) 0 (app_value (app_signals s i))) s3 = Some (r, s1)"
        by simp
      from a q2 have "app_quiet i s3" by (simp add: app_same_code_def app_quiet_def)
      from app_exec_quiet [OF 2 this] a show ?thesis by (simp add: app_same_code_def)
    qed
  qed
  with q2 v2 show ?thesis by (simp add: app_same_code_def app_quiet_def)
qed

text \<open>
  C3, as stated, fails for \<open>NaN\<close>, which is not \<open>===\<close> to itself: the same primitive
  written twice to a signal a component depends on notifies the component twice, in
  both packages.
\<close>

theorem nan_counterexample:
  "seen (then_do (signal_set 4 0 NaN watched) (signal_set 4 0 NaN)) =
     Some (Inr Undefined, 2, [SetStateCall 0 0, SetStateCall 0 1], []) \<and>
   app_seen (app_then_do (app_signal_set 4 0 NaN app_watched) (app_signal_set 4 0 NaN)) =
     Some (Inr Undefined, [HostUpdateCall 0, HostUpdateCall 0])"
  by (simp add: watched_def then_do_def app_then_do_def app_watched_def app_seen_def
      engine_defs app_engine_defs eval_nat_numeral)


text \<open>
  C3. A write of a value that is \<open>===\<close> to the stored one returns at once, in both
  packages. Nothing of the state changes (no stored value, no version count, no
  dependent set, no queued microtask), and no call leaves the module but the
  development build's \<open>console.warn\<close> for an object. A write of a value that is not a
  promise (impact-react wraps a promise) or not a function (the root package hands a
  function to \<open>produce\<close>) leaves that value stored when it returns, provided no callback
  of a derived value, of an effect or of a listener writes the signal; a second write of
  the same value then returns at once if the value is \<open>===\<close> to itself. A call that is
  no write to the signal and runs no callback writing it leaves the signal's variables
  alone. A value is \<open>===\<close> to itself unless it is \<open>NaN\<close>, and every write of \<open>NaN\<close> runs
  the notification of the tracker.
\<close>

theorem equal_write_is_noop:
  "(strict_eq (svalue (signals s i)) v \<longrightarrow>
      signal_set (Suc n) i v s =
        Some (Inr Undefined, if development s \<and> is_object v then emit (Warn v) s else s)) \<and>
   (strict_eq (app_value (app_signals a j)) w \<longrightarrow>
      app_signal_set (Suc n) j w a =
        Some (Inr Undefined, if app_development a \<and> is_object w then app_emit (AppWarn w) a else a)) \<and>
   (quiet i s \<and> \<not> is_promise v \<and> signal_set n i v s = Some (r, s1) \<longrightarrow>
      svalue (signals s1 i) = v \<and> quiet i s1 \<and>
      (strict_eq v v \<longrightarrow>
         signal_set (Suc m) i v s1 =
           Some (Inr Undefined, if development s1 \<and> is_object v then emit (Warn v) s1 else s1))) \<and>
   (app_quiet j a \<and> \<not> is_function w \<and> app_signal_set n j w a = Some (ar, a1) \<longrightarrow>
      app_value (app_signals a1 j) = w \<and> app_quiet j a1 \<and>
      (strict_eq w w \<longrightarrow>
         app_signal_set (Suc m) j w a1 =
           Some (Inr Undefined, if app_development a1 \<and> is_object w then app_emit (AppWarn w) a1 else a1))) \<and>
   (quiet i s \<and> call_silent i c \<and> exec n c s = Some (r, s1) \<longrightarrow>
      signals s1 i = signals s i \<and> quiet i s1) \<and>
   (app_quiet j a \<and> app_call_silent j ac \<and> app_exec n ac a = Some (ar, a1) \<longrightarrow>
      app_signals a1 j = app_signals a j \<and> app_quiet j a1) \<and>
   (strict_eq v v \<longleftrightarrow> v \<noteq> NaN) \<and>
   signal_set (Suc n) i NaN s = tracker_notify n (OfSignal i) (set_hook i (set_svalue i NaN s)) \<and>
   app_signal_set (Suc n) j NaN a =
     (case app_tracker_notify n (OfSignal j)
             (if app_development a
              then app_emit (SetterDebugEntry (OfSignal j) NaN False) (set_app_value j NaN a)
              else set_app_value j NaN a) of
        None \<Rightarrow> None
      | Some (Inl err, a3) \<Rightarrow> Some (Inl err, a3)
      | Some (Inr u, a3) \<Rightarrow> app_listeners_forEach n (OfSignal j) (app_value (app_signals a j)) a3)"
proof -
  have same: "strict_eq (svalue (signals s i)) v \<longrightarrow>
      signal_set (Suc n) i v s =
        Some (Inr Undefined, if development s \<and> is_object v then emit (Warn v) s else s)"
    by (simp add: signal_set_def)
  have app_same: "strict_eq (app_value (app_signals a j)) w \<longrightarrow>
      app_signal_set (Suc n) j w a =
        Some (Inr Undefined, if app_development a \<and> is_object w then app_emit (AppWarn w) a else a)"
    by (simp add: app_signal_set_def)
  have twice: "quiet i s \<and> \<not> is_promise v \<and> signal_set n i v s = Some (r, s1) \<longrightarrow>
      svalue (signals s1 i) = v \<and> quiet i s1 \<and>
      (strict_eq v v \<longrightarrow>
         signal_set (Suc m) i v s1 =
           Some (Inr Undefined, if development s1 \<and> is_object v then emit (Warn v) s1 else s1))"
    using written_twice [of i s v n r s1] by (auto simp: signal_set_def)
  have app_twice: "app_quiet j a \<and> \<not> is_function w \<and> app_signal_set n j w a = Some (ar, a1) \<longrightarrow>
      app_value (app_signals a1 j) = w \<and> app_quiet j a1 \<and>
      (strict_eq w w \<longrightarrow>
         app_signal_set (Suc m) j w a1 =
           Some (Inr Undefined, if app_development a1 \<and> is_object w then app_emit (AppWarn w) a1 else a1))"
    using app_written_twice [of j a w n ar a1] by (auto simp: app_signal_set_def)
  have frame: "quiet i s \<and> call_silent i c \<and> exec n c s = Some (r, s1) \<longrightarrow>
      signals s1 i = signals s i \<and> quiet i s1"
    using exec_quiet [of n c s r s1 i] by (auto simp: same_code_def quiet_def)
  have app_frame: "app_quiet j a \<and> app_call_silent j ac \<and> app_exec n ac a = Some (ar, a1) \<longrightarrow>
      app_signals a1 j = app_signals a j \<and> app_quiet j a1"
    using app_exec_quiet [of n ac a ar a1 j] by (auto simp: app_same_code_def app_quiet_def)
  have nan: "strict_eq v v \<longleftrightarrow> v \<noteq> NaN"
    by (cases v) simp_all
  have nan_write: "signal_set (Suc n) i NaN s =
      tracker_notify n (OfSignal i) (set_hook i (set_svalue i NaN s))"
    by (rule signal_set_plain) (cases "svalue (signals s i)", simp_all)
  have app_nan_write: "app_signal_set (Suc n) j NaN a =
     (case app_tracker_notify n (OfSignal j)
             (if app_development a
              then app_emit (SetterDebugEntry (OfSignal j) NaN False) (set_app_value j NaN a)
              else set_app_value j NaN a) of
        None \<Rightarrow> None
      | Some (Inl err, a3) \<Rightarrow> Some (Inl err, a3)
      | Some (Inr u, a3) \<Rightarrow> app_listeners_forEach n (OfSignal j) (app_value (app_signals a j)) a3)"
  proof -
    have "\<not> strict_eq (app_value (app_signals a j)) NaN"
      by (cases "app_value (app_signals a j)") simp_all
    then show ?thesis
      by (simp add: app_signal_set_def app_tracker_notify_def app_listeners_forEach_def Let_def
          set_app_value_def split: option.splits sum.splits prod.splits)
  qed
  show ?thesis
    by (intro conjI same app_same twice app_twice frame app_frame nan nan_write app_nan_write)
qed


lemma written_once_facts:
  "signal_set 10 0 (Num 2) (after resubscribing) = Some (Inr Undefined, written_once)"
  "version (after resubscribing) = Suc 0"
  "version written_once = 2"
  "development written_once = False"
  by (simp_all add: written_once_def resubscribing_def then_do_def after_def engine_defs eval_nat_numeral)

lemma app_written_once_facts:
  "app_signal_set 10 0 (Num 2) app_watched = Some (Inr Undefined, app_written_once)"
  "app_trace app_written_once = [HostUpdateCall 0]"
  "app_development app_written_once = False"
  by (simp_all add: app_written_once_def app_watched_def app_after_def app_engine_defs eval_nat_numeral)

text \<open>
  Writing 5 over 5 in impact-react, and an object over itself in a development build of
  the root package. Writing 2 twice to a signal an effect reads (the version count
  goes from 1 to 2 with the first write and stays with the second), and twice to the
  watched signal of the root package.
\<close>

theorem equal_write_is_noop_witness:
  "signal_set 1 0 (Num 5) (signal 0 (Num 5) init) = Some (Inr Undefined, signal 0 (Num 5) init) \<and>
   app_signal_set 1 0 (Obj 3) (app_signal 0 (Obj 3) (app_init\<lparr>app_development := True\<rparr>)) =
     Some (Inr Undefined,
           app_emit (AppWarn (Obj 3)) (app_signal 0 (Obj 3) (app_init\<lparr>app_development := True\<rparr>))) \<and>
   signal_set 10 0 (Num 2) (after resubscribing) = Some (Inr Undefined, written_once) \<and>
   version written_once = 2 \<and>
   signal_set 1 0 (Num 2) written_once = Some (Inr Undefined, written_once) \<and>
   app_signal_set 10 0 (Num 2) app_watched = Some (Inr Undefined, app_written_once) \<and>
   app_trace app_written_once = [HostUpdateCall 0] \<and>
   app_signal_set 1 0 (Num 2) app_written_once = Some (Inr Undefined, app_written_once)"
proof -
  let ?s = "signal 0 (Num 5) init"
  let ?a = "app_signal 0 (Obj 3) (app_init\<lparr>app_development := True\<rparr>)"
  have 1: "strict_eq (svalue (signals ?s 0)) (Num 5)" "\<not> development ?s"
    by (simp_all add: signal_def set_svalue_def init_def)
  have 2: "strict_eq (app_value (app_signals ?a 0)) (Obj 3)" "app_development ?a"
    by (simp_all add: app_signal_def app_init_def)
  have first: "signal_set (Suc 0) 0 (Num 5) ?s = Some (Inr Undefined, ?s)"
    using equal_write_is_noop [where s = ?s and i = 0 and v = "Num 5" and n = 0, THEN conjunct1] 1
    by simp
  have second: "app_signal_set (Suc 0) 0 (Obj 3) ?a = Some (Inr Undefined, app_emit (AppWarn (Obj 3)) ?a)"
    using equal_write_is_noop [where a = ?a and j = 0 and w = "Obj 3" and n = 0,
        THEN conjunct2, THEN conjunct1] 2
    by simp
  have q: "quiet 0 (after resubscribing)"
    by (simp add: quiet_def resubscribing_def then_do_def after_def engine_defs eval_nat_numeral)
  have "svalue (signals written_once 0) = Num 2 \<and> quiet 0 written_once \<and>
      (strict_eq (Num 2) (Num 2) \<longrightarrow>
         signal_set (Suc 0) 0 (Num 2) written_once =
           Some (Inr Undefined,
                 if development written_once \<and> is_object (Num 2)
                 then emit (Warn (Num 2)) written_once else written_once))"
    using equal_write_is_noop [where s = "after resubscribing" and i = 0 and v = "Num 2" and n = 10
        and r = "Inr Undefined" and ?s1.0 = written_once and m = 0, THEN conjunct2, THEN conjunct2,
        THEN conjunct1] q written_once_facts(1)
    by simp
  then have third: "signal_set (Suc 0) 0 (Num 2) written_once = Some (Inr Undefined, written_once)"
    by simp
  have aq: "app_quiet 0 app_watched"
    by (simp add: app_quiet_def app_watched_def app_engine_defs)
  have "app_value (app_signals app_written_once 0) = Num 2 \<and> app_quiet 0 app_written_once \<and>
      (strict_eq (Num 2) (Num 2) \<longrightarrow>
         app_signal_set (Suc 0) 0 (Num 2) app_written_once =
           Some (Inr Undefined,
                 if app_development app_written_once \<and> is_object (Num 2)
                 then app_emit (AppWarn (Num 2)) app_written_once else app_written_once))"
    using equal_write_is_noop [where a = app_watched and j = 0 and w = "Num 2" and n = 10
        and ar = "Inr Undefined" and ?a1.0 = app_written_once and m = 0, THEN conjunct2, THEN conjunct2,
        THEN conjunct2, THEN conjunct1] aq app_written_once_facts(1)
    by simp
  then have fourth: "app_signal_set (Suc 0) 0 (Num 2) app_written_once = Some (Inr Undefined, app_written_once)"
    by simp
  from first second third fourth show ?thesis
    by (simp add: written_once_facts app_written_once_facts)
qed

end
